theory Spec2Isabelle
  imports Main
begin

section \<open>Strings\<close>

text \<open>
  A JavaScript string is modelled as the list of its Unicode code points, which is how the
  \<^verbatim>\<open>/u\<close> regular expression of \<^verbatim>\<open>replaceChineseVars\<close> reads it. Every other string
  operation of \<^verbatim>\<open>calculator.ts\<close> (\<^verbatim>\<open>split('\n')\<close>, \<^verbatim>\<open>trim\<close>, \<^verbatim>\<open>line[0]\<close>,
  \<^verbatim>\<open>includes\<close>, \<^verbatim>\<open>indexOf('e')\<close>, the regular expressions without \<^verbatim>\<open>/u\<close>) looks for
  characters of the Basic Multilingual Plane only, so it cannot tell code points from UTF-16
  code units.
\<close>

type_synonym ustring = "nat list"

definition cp :: "char \<Rightarrow> nat" where
  "cp c = of_char c"

definition ascii :: "string \<Rightarrow> ustring" where
  "ascii s = map cp s"

text \<open>\<^verbatim>\<open>\d\<close> without the \<^verbatim>\<open>/u\<close> flag: the ten ASCII digits.\<close>

definition is_digit :: "nat \<Rightarrow> bool" where
  "is_digit c \<longleftrightarrow> cp CHR ''0'' \<le> c \<and> c \<le> cp CHR ''9''"

text \<open>\<^verbatim>\<open>\w\<close>, the class behind \<^verbatim>\<open>\b\<close> and \<^verbatim>\<open>\B\<close>: \<^verbatim>\<open>[A-Za-z0-9_]\<close>.\<close>

definition is_word_char :: "nat \<Rightarrow> bool" where
  "is_word_char c \<longleftrightarrow>
     (cp CHR ''a'' \<le> c \<and> c \<le> cp CHR ''z'') \<or> (cp CHR ''A'' \<le> c \<and> c \<le> cp CHR ''Z'')
     \<or> is_digit c \<or> c = cp CHR ''_''"

text \<open>\<^verbatim>\<open>str.indexOf(c)\<close>; \<open>None\<close> stands for \<^verbatim>\<open>-1\<close>.\<close>

fun indexOf :: "nat \<Rightarrow> ustring \<Rightarrow> nat option" where
  "indexOf c [] = None"
| "indexOf c (x # xs) = (if x = c then Some 0 else map_option Suc (indexOf c xs))"

text \<open>\<^verbatim>\<open>str.split(c)\<close> for a one-character separator, and \<^verbatim>\<open>parts.join(c)\<close>.\<close>

fun split_on :: "nat \<Rightarrow> ustring \<Rightarrow> ustring list" where
  "split_on c [] = [[]]"
| "split_on c (x # xs) =
     (let ps = split_on c xs in if x = c then [] # ps else (x # hd ps) # tl ps)"

fun join_with :: "nat \<Rightarrow> ustring list \<Rightarrow> ustring" where
  "join_with c [] = []"
| "join_with c [p] = p"
| "join_with c (p # q # ps) = p @ c # join_with c (q # ps)"

section \<open>Result formatter\<close>

text \<open>
  \<^verbatim>\<open>mantissa.replace(/\.?0+$/, '')\<close>: the leftmost position from which the rest of the string
  is an optional point followed by one or more zeros is where the string is cut. The
  expression has no \<^verbatim>\<open>g\<close> flag, and a match reaches the end of the string anyway.
\<close>

definition point_zeros :: "ustring \<Rightarrow> bool" where
  "point_zeros s \<longleftrightarrow>
     (case s of
        [] \<Rightarrow> False
      | c # cs \<Rightarrow>
          (c = cp CHR ''.'' \<and> cs \<noteq> [] \<and> list_all (\<lambda>x. x = cp CHR ''0'') cs)
          \<or> list_all (\<lambda>x. x = cp CHR ''0'') (c # cs))"

fun strip_zeros :: "ustring \<Rightarrow> ustring" where
  "strip_zeros [] = []"
| "strip_zeros (c # cs) = (if point_zeros (c # cs) then [] else c # strip_zeros cs)"

text \<open>
  \<^verbatim>\<open>parts[0].replace(/\B(?=(\d{3})+(?!\d))/g, ',')\<close>. The expression matches the empty string
  at a position that is not a word boundary and from where the run of digits up to the next
  non-digit has a length that is a positive multiple of three. Each position is tried once,
  from left to right; \<open>prev\<close> tells whether the character before the position is a word
  character (\<open>False\<close> at the start of the string).
\<close>

definition three_digit_groups :: "ustring \<Rightarrow> bool" where
  "three_digit_groups s \<longleftrightarrow>
     (let n = length (takeWhile is_digit s) in 0 < n \<and> n mod 3 = 0)"

fun group_from :: "bool \<Rightarrow> ustring \<Rightarrow> ustring" where
  "group_from prev [] = []"
| "group_from prev (c # cs) =
     (if prev = is_word_char c \<and> three_digit_groups (c # cs)
      then cp CHR '','' # c # group_from (is_word_char c) cs
      else c # group_from (is_word_char c) cs)"

definition group_thousands :: "ustring \<Rightarrow> ustring" where
  "group_thousands s = group_from False s"

definition formatDisplay :: "ustring \<Rightarrow> ustring" where
  "formatDisplay str =
     (let eIdx = indexOf (cp CHR ''e'') str;
          mantissa = (case eIdx of Some i \<Rightarrow> take i str | None \<Rightarrow> str);
          exponent = (case eIdx of Some i \<Rightarrow> drop i str | None \<Rightarrow> []);
          mantissa = (if cp CHR ''.'' \<in> set mantissa then strip_zeros mantissa else mantissa);
          mantissa =
            (if exponent = []
             then (let parts = split_on (cp CHR ''.'') mantissa;
                       parts = parts[0 := group_thousands (parts ! 0)]
                   in join_with (cp CHR ''.'') parts)
             else mantissa)
      in mantissa @ exponent)"

definition formatNumber :: "ustring \<Rightarrow> ustring" where
  "formatNumber str = formatDisplay str"

text \<open>
  The raw strings the formatter is applied to, in the words of the specification: a decimal
  numeral (an optional minus sign, digits, at most one decimal point), optionally followed
  by an exponent suffix that starts with a lowercase \<^verbatim>\<open>e\<close>.
\<close>

definition unsigned :: "ustring \<Rightarrow> ustring" where
  "unsigned s = (case s of [] \<Rightarrow> [] | c # cs \<Rightarrow> if c = cp CHR ''-'' then cs else s)"

definition decimal_numeral :: "ustring \<Rightarrow> bool" where
  "decimal_numeral m \<longleftrightarrow>
     (let u = unsigned m
      in list_all (\<lambda>c. is_digit c \<or> c = cp CHR ''.'') u \<and> list_ex is_digit u
         \<and> length (filter (\<lambda>c. c = cp CHR ''.'') u) \<le> 1)"

definition exponent_suffix :: "ustring \<Rightarrow> bool" where
  "exponent_suffix ex \<longleftrightarrow>
     (case ex of
        [] \<Rightarrow> True
      | c # cs \<Rightarrow>
          c = cp CHR ''e'' \<and>
          (let ds = (case cs of [] \<Rightarrow> []
                     | d # r \<Rightarrow> if d = cp CHR ''+'' \<or> d = cp CHR ''-'' then r else cs)
           in ds \<noteq> [] \<and> list_all is_digit ds))"

definition raw_notation :: "ustring \<Rightarrow> bool" where
  "raw_notation s \<longleftrightarrow>
     decimal_numeral (takeWhile (\<lambda>c. c \<noteq> cp CHR ''e'') s)
     \<and> exponent_suffix (dropWhile (\<lambda>c. c \<noteq> cp CHR ''e'') s)"

section \<open>Variable aliasing\<close>

text \<open>
  \<^verbatim>\<open>VarMapping\<close>: the alias table of one \<^verbatim>\<open>calculate\<close> call. The counter is a JavaScript
  number that only ever counts identifiers of one document, so it is a natural number here.
\<close>

record VarMapping =
  cnToAlias :: "ustring \<rightharpoonup> ustring"
  counter :: nat

text \<open>The decimal digits of a number, as the template literal \<^verbatim>\<open>`_v${n}`\<close> prints them.\<close>

fun decimal :: "nat \<Rightarrow> ustring" where
  "decimal n =
     (if n < 10 then [cp CHR ''0'' + n] else decimal (n div 10) @ [cp CHR ''0'' + n mod 10])"

declare decimal.simps [simp del]

text \<open>\<^verbatim>\<open>/[^\x00-\x7F]/.test(s)\<close>\<close>

definition hasUnicodeLetter :: "ustring \<Rightarrow> bool" where
  "hasUnicodeLetter s = list_ex (\<lambda>c. 127 < c) s"

text \<open>
  \<^verbatim>\<open>getAlias\<close>. \<^verbatim>\<open>!alias\<close> holds when the identifier has no entry, and would also hold for an
  entry that is the empty string.
\<close>

definition getAlias :: "VarMapping \<Rightarrow> ustring \<Rightarrow> ustring \<times> VarMapping" where
  "getAlias mapping cnName =
     (let fresh = ascii ''_v'' @ decimal (counter mapping);
          allocated =
            (fresh, \<lparr>cnToAlias = (cnToAlias mapping)(cnName \<mapsto> fresh),
                     counter = counter mapping + 1\<rparr>)
      in case cnToAlias mapping cnName of
           None \<Rightarrow> allocated
         | Some alias \<Rightarrow> if alias = [] then allocated else (alias, mapping))"

text \<open>
  The Unicode property classes \<^verbatim>\<open>\p{L}\<close> and \<^verbatim>\<open>\p{N}\<close> are tables of the JavaScript engine;
  they are parameters of the model.
\<close>

record unicode =
  is_letter :: "nat \<Rightarrow> bool"
  is_number :: "nat \<Rightarrow> bool"

definition ident_start :: "unicode \<Rightarrow> nat \<Rightarrow> bool" where
  "ident_start U c \<longleftrightarrow> is_letter U c \<or> c = cp CHR ''_''"

definition ident_part :: "unicode \<Rightarrow> nat \<Rightarrow> bool" where
  "ident_part U c \<longleftrightarrow> is_letter U c \<or> is_number U c \<or> c = cp CHR ''_''"

text \<open>
  \<^verbatim>\<open>line.replace(/[\p{L}_][\p{L}\p{N}_]*/gu, callback)\<close>: from left to right, a letter or
  underscore starts a match that takes every following letter, number and underscore; the
  callback replaces a match that has a non-ASCII character by its alias, in the order of
  the matches; every other character is copied.
\<close>

function replaceChineseVars :: "unicode \<Rightarrow> ustring \<Rightarrow> VarMapping \<Rightarrow> ustring \<times> VarMapping" where
  "replaceChineseVars U [] mapping = ([], mapping)"
| "replaceChineseVars U (c # cs) mapping =
     (if ident_start U c
      then (let match = c # takeWhile (ident_part U) cs;
                rest = dropWhile (ident_part U) cs;
                (replacement, mapping1) =
                  (if hasUnicodeLetter match then getAlias mapping match else (match, mapping));
                (out, mapping2) = replaceChineseVars U rest mapping1
            in (replacement @ out, mapping2))
      else (let (out, mapping1) = replaceChineseVars U cs mapping in (c # out, mapping1)))"
  by pat_completeness auto
termination
  by (relation "measure (\<lambda>(U, s, mapping). length s)")
     (auto simp: length_dropWhile_le less_Suc_eq_le)

section \<open>Line preprocessor\<close>

text \<open>
  One attempt of \<^verbatim>\<open>/(\d+(?:\.\d+)?)%/\<close> at the start of a string: the literal and what
  follows the percent sign. A match from a given position is unique: a run of digits that
  is followed by \<^verbatim>\<open>%\<close> or by \<^verbatim>\<open>.\<close> ends at a non-digit, so it is the longest run, and
  backtracking to a shorter one cannot succeed.
\<close>

definition percent_literal :: "ustring \<Rightarrow> (ustring \<times> ustring) option" where
  "percent_literal s =
     (let d1 = takeWhile is_digit s; r1 = dropWhile is_digit s
      in if d1 = [] then None
         else case r1 of
           [] \<Rightarrow> None
         | c # r2 \<Rightarrow>
             if c = cp CHR ''%'' then Some (d1, r2)
             else if c = cp CHR ''.''
             then (let d2 = takeWhile is_digit r2; r3 = dropWhile is_digit r2
                   in if d2 = [] then None
                      else case r3 of
                        [] \<Rightarrow> None
                      | c' # r4 \<Rightarrow>
                          if c' = cp CHR ''%'' then Some (d1 @ cp CHR ''.'' # d2, r4) else None)
             else None)"

text \<open>\<^verbatim>\<open>line.replace(/(\d+(?:\.\d+)?)%/g, '($1/100)')\<close>\<close>

function preprocessPercent :: "ustring \<Rightarrow> ustring" where
  "preprocessPercent [] = []"
| "preprocessPercent (c # cs) =
     (case percent_literal (c # cs) of
        Some (literal, rest) \<Rightarrow> ascii ''('' @ literal @ ascii ''/100)'' @ preprocessPercent rest
      | None \<Rightarrow> c # preprocessPercent cs)"
  by pat_completeness auto
termination
proof (relation "measure length")
  fix c :: nat and cs literal rest :: ustring and x2
  assume "percent_literal (c # cs) = Some x2" and "(literal, rest) = x2"
  then have m: "percent_literal (c # cs) = Some (literal, rest)"
    by simp
  have "c # cs = literal @ cp CHR ''%'' # rest"
  proof -
    have 1: "takeWhile is_digit (c # cs) @ dropWhile is_digit (c # cs) = c # cs"
      by (rule takeWhile_dropWhile_id)
    show ?thesis
    proof (cases "dropWhile is_digit (c # cs)")
      case Nil
      with m show ?thesis
        by (simp add: percent_literal_def Let_def split: if_splits)
    next
      case (Cons d r2)
      note r1 = this
      show ?thesis
      proof (cases "d = cp CHR ''%''")
        case True
        with m r1 have "literal = takeWhile is_digit (c # cs) \<and> rest = r2"
          by (auto simp: percent_literal_def Let_def split: if_splits)
        with 1 r1 True show ?thesis by metis
      next
        case False
        have 2: "takeWhile is_digit r2 @ dropWhile is_digit r2 = r2"
          by (rule takeWhile_dropWhile_id)
        from False m r1 obtain r4 where
          "d = cp CHR ''.''" and "dropWhile is_digit r2 = cp CHR ''%'' # r4" and
          "literal = takeWhile is_digit (c # cs) @ cp CHR ''.'' # takeWhile is_digit r2" and
          "rest = r4"
          unfolding percent_literal_def Let_def r1
          by (auto split: if_splits list.splits)
        with 1 2 r1 show ?thesis
          by (metis append.assoc append_Cons)
      qed
    qed
  qed
  then have "length (c # cs) = length literal + 1 + length rest"
    by simp
  then show "(rest, c # cs) \<in> measure length"
    by simp
qed simp_all

section \<open>Line classifier\<close>

text \<open>
  \<^verbatim>\<open>String.prototype.trim\<close> removes the white space and line terminator characters of
  ECMAScript from both ends.
\<close>

definition is_js_space :: "nat \<Rightarrow> bool" where
  "is_js_space c \<longleftrightarrow>
     c \<in> {0x09, 0x0A, 0x0B, 0x0C, 0x0D, 0x20, 0xA0, 0x1680, 0x2028, 0x2029, 0x202F, 0x205F,
           0x3000, 0xFEFF}
     \<or> (0x2000 \<le> c \<and> c \<le> 0x200A)"

definition trim :: "ustring \<Rightarrow> ustring" where
  "trim s = rev (dropWhile is_js_space (rev (dropWhile is_js_space s)))"

definition BINARY_OPERATORS :: "nat list" where
  "BINARY_OPERATORS = [cp CHR ''+'', cp CHR ''-'', cp CHR ''*'', cp CHR ''/'']"

text \<open>
  \<^verbatim>\<open>/^[-=_.*\u00B7~]+$/.test(line)\<close>, the middle dot U+00B7 written here as an escape.
\<close>

definition is_separator :: "ustring \<Rightarrow> bool" where
  "is_separator line \<longleftrightarrow>
     line \<noteq> [] \<and> list_all (\<lambda>c. c \<in> set (ascii ''-=_.*~'') \<or> c = 0xB7) line"

text \<open>\<^verbatim>\<open>/[0-9=()^]/.test(line)\<close>\<close>

definition has_math_char :: "ustring \<Rightarrow> bool" where
  "has_math_char line = list_ex (\<lambda>c. is_digit c \<or> c \<in> set (ascii ''=()^'')) line"

text \<open>\<^verbatim>\<open>BINARY_OPERATORS.some(op => line.includes(op))\<close>\<close>

definition has_operator :: "ustring \<Rightarrow> bool" where
  "has_operator line = list_ex (\<lambda>op. op \<in> set line) BINARY_OPERATORS"

text \<open>
  \<^verbatim>\<open>/\b(pi|e|ans|true|false|Infinity)\b/i.test(line)\<close>. Without the \<^verbatim>\<open>/u\<close> flag the
  case-insensitive comparison never lets a character above U+007F match an ASCII letter, so
  folding the ASCII letters is exact. \<open>word_at\<close> is one alternative tried at a position:
  the word itself, then the boundary after it; \<open>math_word_from\<close> tries every position,
  \<open>prev\<close> telling whether the character before it is a word character.
\<close>

definition MATH_WORDS :: "ustring list" where
  "MATH_WORDS = map ascii [''pi'', ''e'', ''ans'', ''true'', ''false'', ''Infinity'']"

definition to_upper :: "nat \<Rightarrow> nat" where
  "to_upper c = (if cp CHR ''a'' \<le> c \<and> c \<le> cp CHR ''z'' then c - 32 else c)"

definition word_at :: "ustring \<Rightarrow> ustring \<Rightarrow> bool" where
  "word_at w s \<longleftrightarrow>
     length w \<le> length s \<and> map to_upper (take (length w) s) = map to_upper w
     \<and> (case drop (length w) s of [] \<Rightarrow> True | c # _ \<Rightarrow> \<not> is_word_char c)"

fun math_word_from :: "bool \<Rightarrow> ustring \<Rightarrow> bool" where
  "math_word_from prev [] = False"
| "math_word_from prev (c # cs) =
     ((prev \<noteq> is_word_char c \<and> list_ex (\<lambda>w. word_at w (c # cs)) MATH_WORDS)
      \<or> math_word_from (is_word_char c) cs)"

definition has_math_word :: "ustring \<Rightarrow> bool" where
  "has_math_word line = math_word_from False line"

datatype line_class = BlankLine | Comment | Separator | Prose | Eligible

text \<open>
  The four skipping tests of the loop of \<^verbatim>\<open>calculate\<close>, in their order, on the trimmed
  line; \<open>Eligible\<close> is a line that reaches the \<^verbatim>\<open>try\<close> block.
\<close>

definition classify :: "VarMapping \<Rightarrow> (ustring \<rightharpoonup> 'w) \<Rightarrow> ustring \<Rightarrow> line_class" where
  "classify mapping scope line =
     (if line = [] then BlankLine
      else if (case line of [] \<Rightarrow> False | c # _ \<Rightarrow> c = cp CHR ''#'') then Comment
      else if is_separator line then Separator
      else (let isKnownVariable = (scope line \<noteq> None \<or> cnToAlias mapping line \<noteq> None)
            in if \<not> isKnownVariable \<and> \<not> has_math_char line \<and> \<not> has_operator line
                  \<and> \<not> has_math_word line
               then Prose else Eligible))"

section \<open>Arithmetic engine\<close>

text \<open>
  The engine is the mathjs library, not code of this repository. A value of type
  \<^verbatim>\<open>unknown\<close> is \<^verbatim>\<open>undefined\<close>, \<^verbatim>\<open>null\<close> or an engine value; an evaluation returns or
  throws, and in both cases may have written variables into the scope object. The four
  functions of the instance that \<^verbatim>\<open>calculator.ts\<close> calls are parameters: \<^verbatim>\<open>math.evaluate\<close>,
  \<^verbatim>\<open>math.typeOf\<close>, \<^verbatim>\<open>math.format\<close> with the options \<^verbatim>\<open>AUTO_FMT\<close>, and \<^verbatim>\<open>math.number\<close>
  (\<open>None\<close> when it throws).
\<close>

datatype 'v jsval = Undefined | Null | Val 'v

datatype 'a outcome = Threw | Returned 'a

type_synonym 'v scope = "ustring \<rightharpoonup> 'v jsval"

record ('v, 'n) engine =
  math_evaluate :: "ustring \<Rightarrow> 'v scope \<Rightarrow> 'v jsval outcome \<times> 'v scope"
  math_typeOf :: "'v jsval \<Rightarrow> string"
  math_format :: "'v jsval \<Rightarrow> ustring"
  math_number :: "'v jsval \<Rightarrow> 'n option"

definition resultToDisplay :: "('v, 'n) engine \<Rightarrow> 'v jsval \<Rightarrow> ustring option" where
  "resultToDisplay E val =
     (if val = Undefined \<or> val = Null then None
      else (let type = math_typeOf E val
            in if type = ''BigNumber'' \<or> type = ''number'' then Some (math_format E val)
               else None))"

definition resultToNumber :: "('v, 'n::zero) engine \<Rightarrow> 'v jsval \<Rightarrow> 'n" where
  "resultToNumber E val = (case math_number E val of Some n \<Rightarrow> n | None \<Rightarrow> 0)"

section \<open>Evaluation driver\<close>

record 'n LineResult =
  display :: "ustring option"
  numeric :: 'n
  error :: bool

text \<open>The three shapes of a result that \<^verbatim>\<open>calculate\<close> pushes.\<close>

definition Blank :: "('n::zero) LineResult" where
  "Blank = \<lparr>display = None, numeric = 0, error = False\<rparr>"

definition Error :: "('n::zero) LineResult" where
  "Error = \<lparr>display = None, numeric = 0, error = True\<rparr>"

definition Display :: "ustring \<Rightarrow> 'n \<Rightarrow> 'n LineResult" where
  "Display d n = \<lparr>display = Some d, numeric = n, error = False\<rparr>"

text \<open>The local variables of \<^verbatim>\<open>calculate\<close> that live across lines.\<close>

record 'v pass =
  mapping :: VarMapping
  scope :: "'v scope"
  previousAnswer :: "'v jsval"

definition initial :: "'v pass" where
  "initial = \<lparr>mapping = \<lparr>cnToAlias = Map.empty, counter = 0\<rparr>, scope = Map.empty,
              previousAnswer = Null\<rparr>"

text \<open>Lines 173 to 175: the chaining prefix.\<close>

definition chain :: "('v, 'n) engine \<Rightarrow> 'v jsval \<Rightarrow> ustring \<Rightarrow> ustring" where
  "chain E prev line =
     (if prev \<noteq> Null \<and> (case line of [] \<Rightarrow> False | c # _ \<Rightarrow> c \<in> set BINARY_OPERATORS)
      then math_format E prev @ line else line)"

text \<open>Lines 177 to 179: \<^verbatim>\<open>scope['ans'] = previousAnswer\<close>.\<close>

definition bind_ans :: "'v jsval \<Rightarrow> 'v scope \<Rightarrow> 'v scope" where
  "bind_ans prev sc = (if prev \<noteq> Null then sc(ascii ''ans'' \<mapsto> prev) else sc)"

text \<open>
  Lines 173 to 182: the string that \<^verbatim>\<open>math.evaluate\<close> receives for a trimmed line, together
  with the alias table after the substitution.
\<close>

definition engine_input ::
  "('v, 'n) engine \<Rightarrow> unicode \<Rightarrow> 'v pass \<Rightarrow> ustring \<Rightarrow> ustring \<times> VarMapping" where
  "engine_input E U st line =
     replaceChineseVars U (preprocessPercent (chain E (previousAnswer st) line)) (mapping st)"

text \<open>
  Lines 184 to 196: the evaluation, and what is stored. The alias table and the scope keep
  what the substitution and the engine wrote, also when the engine throws.
\<close>

definition run_engine ::
  "('v, 'n::zero) engine \<Rightarrow> 'v pass \<Rightarrow> 'v scope \<Rightarrow> ustring \<times> VarMapping
     \<Rightarrow> 'n LineResult \<times> 'v pass" where
  "run_engine E st sc input =
     (let (line, mapping1) = input;
          (out, scope1) = math_evaluate E line sc;
          st1 = st\<lparr>mapping := mapping1, scope := scope1\<rparr>
      in case out of
           Threw \<Rightarrow> (Error, st1)
         | Returned result \<Rightarrow>
             (case resultToDisplay E result of
                Some d \<Rightarrow> (Display d (resultToNumber E result), st1\<lparr>previousAnswer := result\<rparr>)
              | None \<Rightarrow> (Blank, st1)))"

text \<open>One iteration of the loop of \<^verbatim>\<open>calculate\<close>: the result pushed and the state after.\<close>

definition process_line ::
  "('v, 'n::zero) engine \<Rightarrow> unicode \<Rightarrow> 'v pass \<Rightarrow> ustring \<Rightarrow> 'n LineResult \<times> 'v pass" where
  "process_line E U st raw =
     (let line = trim raw
      in case classify (mapping st) (scope st) line of
           Eligible \<Rightarrow>
             run_engine E st (bind_ans (previousAnswer st) (scope st)) (engine_input E U st line)
         | _ \<Rightarrow> (Blank, st))"

fun process_lines ::
  "('v, 'n::zero) engine \<Rightarrow> unicode \<Rightarrow> 'v pass \<Rightarrow> 'n LineResult list \<Rightarrow> ustring list
     \<Rightarrow> 'n LineResult list \<times> 'v pass" where
  "process_lines E U st results [] = (results, st)"
| "process_lines E U st results (l # ls) =
     (let (r, st1) = process_line E U st l in process_lines E U st1 (results @ [r]) ls)"

record 'n CalcResult =
  lines :: "'n LineResult list"

definition calculate :: "('v, 'n::zero) engine \<Rightarrow> unicode \<Rightarrow> ustring \<Rightarrow> 'n CalcResult" where
  "calculate E U text =
     \<lparr>lines = fst (process_lines E U initial [] (split_on (cp CHR 0x0A) text))\<rparr>"

section \<open>A small engine for concrete runs\<close>

text \<open>
  An engine with numbers and one non-numeric value, enough to run the driver on concrete
  documents: a numeral evaluates to its value, \<^verbatim>\<open>ans\<close> reads the scope, \<^verbatim>\<open>[1]\<close> is a matrix,
  two products are known, and everything else throws. The Unicode tables know the ASCII
  letters and digits and the CJK unified ideographs.
\<close>

datatype demo_value = Num nat | Matrix

fun numeral_value :: "nat \<Rightarrow> ustring \<Rightarrow> nat" where
  "numeral_value acc [] = acc"
| "numeral_value acc (c # cs) = numeral_value (10 * acc + (c - cp CHR ''0'')) cs"

definition demo_evaluate ::
  "ustring \<Rightarrow> demo_value scope \<Rightarrow> demo_value jsval outcome \<times> demo_value scope" where
  "demo_evaluate s sc =
     (if s \<noteq> [] \<and> list_all is_digit s then (Returned (Val (Num (numeral_value 0 s))), sc)
      else if s = ascii ''ans''
      then (case sc (ascii ''ans'') of Some v \<Rightarrow> (Returned v, sc) | None \<Rightarrow> (Threw, sc))
      else if s = ascii ''[1]'' then (Returned (Val Matrix), sc)
      else if s = ascii ''100* (80/100)'' then (Returned (Val (Num 80)), sc)
      else if s = ascii ''7*3'' then (Returned (Val (Num 21)), sc)
      else (Threw, sc))"

definition demo_typeOf :: "demo_value jsval \<Rightarrow> string" where
  "demo_typeOf v =
     (case v of Undefined \<Rightarrow> ''undefined'' | Null \<Rightarrow> ''null''
      | Val (Num n) \<Rightarrow> ''number'' | Val Matrix \<Rightarrow> ''Matrix'')"

definition demo_format :: "demo_value jsval \<Rightarrow> ustring" where
  "demo_format v =
     (case v of Undefined \<Rightarrow> ascii ''undefined'' | Null \<Rightarrow> ascii ''null''
      | Val (Num n) \<Rightarrow> decimal n | Val Matrix \<Rightarrow> ascii ''[1]'')"

definition demo_number :: "demo_value jsval \<Rightarrow> int option" where
  "demo_number v = (case v of Val (Num n) \<Rightarrow> Some (int n) | _ \<Rightarrow> None)"

definition demo_engine :: "(demo_value, int) engine" where
  "demo_engine =
     \<lparr>math_evaluate = demo_evaluate, math_typeOf = demo_typeOf, math_format = demo_format,
      math_number = demo_number\<rparr>"

definition demo_unicode :: unicode where
  "demo_unicode =
     \<lparr>is_letter = (\<lambda>c. (cp CHR ''a'' \<le> c \<and> c \<le> cp CHR ''z'') \<or> (cp CHR ''A'' \<le> c \<and> c \<le> cp CHR ''Z'')
                        \<or> (0x4E00 \<le> c \<and> c \<le> 0x9FFF)),
      is_number = is_digit\<rparr>"

text \<open>The pass state after a first line \<^verbatim>\<open>100\<close>.\<close>

definition after_100 :: "demo_value pass" where
  "after_100 = initial\<lparr>previousAnswer := Val (Num 100)\<rparr>"

section \<open>Notions used by the statements\<close>

text \<open>An ASCII digit immediately followed by a percent sign, somewhere in a string.\<close>

fun digit_before_percent :: "ustring \<Rightarrow> bool" where
  "digit_before_percent (a # b # cs) =
     ((is_digit a \<and> b = cp CHR ''%'') \<or> digit_before_percent (b # cs))"
| "digit_before_percent _ = False"

text \<open>
  The preprocessing in the order in which section 4.2 of the specification words it: percent
  expansion first; then, if a previous answer exists and the first character of the line is
  one of \<^verbatim>\<open>+ - * /\<close>, the previous answer's formatted string is put in front; alias
  substitution last, over the assembled line. (The binding of \<^verbatim>\<open>ans\<close>, step 3 there, does
  not touch the string.)
\<close>

definition spec_pipeline ::
  "('v, 'n) engine \<Rightarrow> unicode \<Rightarrow> 'v pass \<Rightarrow> ustring \<Rightarrow> ustring \<times> VarMapping" where
  "spec_pipeline E U st line =
     (let expanded = preprocessPercent line;
          assembled =
            (if previousAnswer st \<noteq> Null
                \<and> (case expanded of [] \<Rightarrow> False | c # _ \<Rightarrow> c \<in> set BINARY_OPERATORS)
             then math_format E (previousAnswer st) @ expanded else expanded)
      in replaceChineseVars U assembled (mapping st))"

text \<open>
  The requests for aliases that a pass makes, one after the other, each on the table the
  one before left: \<^verbatim>\<open>replaceChineseVars\<close> calls \<^verbatim>\<open>getAlias\<close> for every match that has a
  non-ASCII character, from left to right, and \<^verbatim>\<open>calculate\<close> hands the same table to every
  line.
\<close>

fun getAliases :: "VarMapping \<Rightarrow> ustring list \<Rightarrow> ustring list \<times> VarMapping" where
  "getAliases table [] = ([], table)"
| "getAliases table (cnName # rest) =
     (let (alias, table1) = getAlias table cnName;
          (aliases, table2) = getAliases table1 rest
      in (alias # aliases, table2))"

text \<open>
  What holds of the alias table throughout a pass: its names are the first \<open>counter\<close>
  synthetic names, one for each identifier in it.
\<close>

definition table_ok :: "VarMapping \<Rightarrow> bool" where
  "table_ok m \<longleftrightarrow>
     finite (dom (cnToAlias m)) \<and> card (dom (cnToAlias m)) = counter m
     \<and> (\<forall>n a. cnToAlias m n = Some a \<longrightarrow> (\<exists>r<counter m. a = ascii ''_v'' @ decimal r))
     \<and> inj_on (cnToAlias m) (dom (cnToAlias m))"

text \<open>
  A numeric literal as \<^verbatim>\<open>\d+(?:\.\d+)?\<close> reads it: digits, optionally a point and digits.
\<close>

definition numeric_literal :: "ustring \<Rightarrow> bool" where
  "numeric_literal lit \<longleftrightarrow>
     (let d1 = takeWhile is_digit lit; r = dropWhile is_digit lit
      in d1 \<noteq> [] \<and>
         (case r of [] \<Rightarrow> True
          | c # d2 \<Rightarrow> c = cp CHR ''.'' \<and> d2 \<noteq> [] \<and> list_all is_digit d2))"

text \<open>
  A text after which a numeric literal starts afresh: it ends neither with a digit nor with
  a digit and a point, so no literal that begins in it runs on into what follows.
\<close>

definition literal_cut :: "ustring \<Rightarrow> bool" where
  "literal_cut pre \<longleftrightarrow>
     (case rev pre of
        [] \<Rightarrow> True
      | c # r \<Rightarrow>
          \<not> is_digit c
          \<and> \<not> (c = cp CHR ''.'' \<and> (case r of [] \<Rightarrow> False | d # _ \<Rightarrow> is_digit d)))"

text \<open>
  The matches of the identifier expression of \<^verbatim>\<open>replaceChineseVars\<close> that have a non-ASCII
  character, from left to right: the identifiers for which a line asks \<^verbatim>\<open>getAlias\<close>.
\<close>

function identifiers :: "unicode \<Rightarrow> ustring \<Rightarrow> ustring list" where
  "identifiers U [] = []"
| "identifiers U (c # cs) =
     (if ident_start U c
      then (let match = c # takeWhile (ident_part U) cs;
                rest = dropWhile (ident_part U) cs
            in (if hasUnicodeLetter match then [match] else []) @ identifiers U rest)
      else identifiers U cs)"
  by pat_completeness auto
termination
  by (relation "measure (\<lambda>(U, s). length s)")
     (auto simp: length_dropWhile_le less_Suc_eq_le)

text \<open>
  The same replacement with a callback that has no state: every match that has a non-ASCII
  character is replaced by what \<open>f\<close> gives for it.
\<close>

function substitute :: "unicode \<Rightarrow> (ustring \<Rightarrow> ustring) \<Rightarrow> ustring \<Rightarrow> ustring" where
  "substitute U f [] = []"
| "substitute U f (c # cs) =
     (if ident_start U c
      then (let match = c # takeWhile (ident_part U) cs;
                rest = dropWhile (ident_part U) cs
            in (if hasUnicodeLetter match then f match else match) @ substitute U f rest)
      else c # substitute U f cs)"
  by pat_completeness auto
termination
  by (relation "measure (\<lambda>(U, f, s). length s)")
     (auto simp: length_dropWhile_le less_Suc_eq_le)

text \<open>The alias that a table has for an identifier; an identifier without one stays.\<close>

definition alias_of :: "VarMapping \<Rightarrow> ustring \<Rightarrow> ustring" where
  "alias_of table n = (case cnToAlias table n of Some a \<Rightarrow> a | None \<Rightarrow> n)"

text \<open>
  A digit that is not inside an identifier, immediately followed by a percent sign: the
  scan skips every match of the identifier expression, so the last digit of a name such as
  \<^verbatim>\<open>_v0\<close> does not count.
\<close>

function literal_before_percent :: "unicode \<Rightarrow> ustring \<Rightarrow> bool" where
  "literal_before_percent U [] = False"
| "literal_before_percent U (c # cs) =
     (if ident_start U c then literal_before_percent U (dropWhile (ident_part U) cs)
      else (is_digit c \<and> (case cs of [] \<Rightarrow> False | d # _ \<Rightarrow> d = cp CHR ''%''))
           \<or> literal_before_percent U cs)"
  by pat_completeness auto
termination
  by (relation "measure (\<lambda>(U, s). length s)")
     (auto simp: length_dropWhile_le less_Suc_eq_le)

text \<open>
  What the alias names need of the Unicode tables: \<^verbatim>\<open>v\<close> is a letter, the ASCII digits are
  numbers, and the percent sign is not a letter.
\<close>

definition alias_chars_ok :: "unicode \<Rightarrow> bool" where
  "alias_chars_ok U \<longleftrightarrow>
     is_letter U (cp CHR ''v'') \<and> list_all (is_number U) (ascii ''0123456789'')
     \<and> \<not> is_letter U (cp CHR ''%'')"

text \<open>A string that the identifier expression matches as a whole.\<close>

definition ident_shaped :: "unicode \<Rightarrow> ustring \<Rightarrow> bool" where
  "ident_shaped U s \<longleftrightarrow>
     (case s of [] \<Rightarrow> False | c # cs \<Rightarrow> ident_start U c \<and> list_all (ident_part U) cs)"

text \<open>
  The requests of a pass. A line asks for aliases only when it reaches the \<^verbatim>\<open>try\<close> block,
  for the identifiers of its text after chaining and percent expansion; the pass asks line
  after line, each in the state the lines before left.
\<close>

definition line_requests ::
  "('v, 'n::zero) engine \<Rightarrow> unicode \<Rightarrow> 'v pass \<Rightarrow> ustring \<Rightarrow> ustring list" where
  "line_requests E U st raw =
     (let line = trim raw
      in if classify (mapping st) (scope st) line = Eligible
         then identifiers U (preprocessPercent (chain E (previousAnswer st) line))
         else [])"

fun pass_requests ::
  "('v, 'n::zero) engine \<Rightarrow> unicode \<Rightarrow> 'v pass \<Rightarrow> ustring list \<Rightarrow> ustring list" where
  "pass_requests E U st [] = []"
| "pass_requests E U st (l # ls) =
     line_requests E U st l @ pass_requests E U (snd (process_line E U st l)) ls"

text \<open>The state of a pass after the lines \<open>ls\<close>, and its alias table.\<close>

definition pass_state :: "('v, 'n::zero) engine \<Rightarrow> unicode \<Rightarrow> ustring list \<Rightarrow> 'v pass" where
  "pass_state E U ls = snd (process_lines E U initial [] ls)"

definition pass_table :: "('v, 'n::zero) engine \<Rightarrow> unicode \<Rightarrow> ustring list \<Rightarrow> VarMapping" where
  "pass_table E U ls = mapping (pass_state E U ls)"

section \<open>Formatter: the worked example\<close>

text \<open>
  C8: the presentation formatter maps the raw string \<^verbatim>\<open>1234567.00\<close> to \<^verbatim>\<open>1,234,567\<close>: the
  trailing zeros and the then bare decimal point are stripped, and the integer portion is
  grouped every three digits.
\<close>

theorem formatNumber_example:
  "formatNumber (ascii ''1234567.00'') = ascii ''1,234,567''"
  by code_simp

section \<open>Formatter: idempotence\<close>

subsection \<open>Splitting and joining\<close>

lemma indexOf_take:
  "(case indexOf c s of Some i \<Rightarrow> take i s | None \<Rightarrow> s) = takeWhile (\<lambda>x. x \<noteq> c) s"
  by (induction s) (auto split: option.splits)

lemma indexOf_drop:
  "(case indexOf c s of Some i \<Rightarrow> drop i s | None \<Rightarrow> []) = dropWhile (\<lambda>x. x \<noteq> c) s"
  by (induction s) (auto split: option.splits)

lemma split_on_nonempty: "split_on c s \<noteq> []"
  by (induction s) (auto simp: Let_def)

lemma hd_split_on: "hd (split_on c s) = takeWhile (\<lambda>x. x \<noteq> c) s"
  by (induction s) (auto simp: Let_def)

lemma join_with_Cons: "ps \<noteq> [] \<Longrightarrow> join_with c (p # ps) = p @ c # join_with c ps"
  by (cases ps) auto

lemma join_split_both:
  "join_with c (split_on c s) = s
   \<and> (\<forall>p. join_with c (p # tl (split_on c s)) = p @ dropWhile (\<lambda>x. x \<noteq> c) s)"
proof (induction s)
  case Nil
  show ?case by simp
next
  case (Cons x xs)
  show ?case
  proof (cases "x = c")
    case True
    with Cons show ?thesis
      by (simp add: Let_def join_with_Cons split_on_nonempty)
  next
    case False
    have "hd (split_on c xs) @ dropWhile (\<lambda>x. x \<noteq> c) xs = xs"
      by (simp add: hd_split_on)
    with False Cons show ?thesis
      by (simp add: Let_def)
  qed
qed

lemma join_split_head:
  "join_with c ((split_on c s)[0 := g (split_on c s ! 0)])
     = g (takeWhile (\<lambda>x. x \<noteq> c) s) @ dropWhile (\<lambda>x. x \<noteq> c) s"
proof -
  obtain p ps where ps: "split_on c s = p # ps"
    using split_on_nonempty [of c s] by (cases "split_on c s") auto
  have "p = takeWhile (\<lambda>x. x \<noteq> c) s"
    using hd_split_on [of c s] ps by simp
  moreover have "join_with c (g p # ps) = g p @ dropWhile (\<lambda>x. x \<noteq> c) s"
    using join_split_both [of c s] ps by simp
  ultimately show ?thesis
    by (simp add: ps)
qed

subsection \<open>Trailing zeros\<close>

lemma strip_zeros_subset: "set (strip_zeros s) \<subseteq> set s"
  by (induction s) auto

lemma strip_zeros_Nil: "strip_zeros s = [] \<longleftrightarrow> s = [] \<or> point_zeros s"
  by (cases s) auto

lemma point_zeros_last: "point_zeros s \<Longrightarrow> s \<noteq> [] \<and> last s = cp CHR ''0''"
  by (cases s) (auto simp: point_zeros_def list_all_iff)

lemma strip_zeros_fixed: "s = [] \<or> last s \<noteq> cp CHR ''0'' \<Longrightarrow> strip_zeros s = s"
proof (induction s)
  case Nil
  show ?case by simp
next
  case (Cons c cs)
  then have "\<not> point_zeros (c # cs)"
    using point_zeros_last [of "c # cs"] by auto
  moreover have "cs = [] \<or> last cs \<noteq> cp CHR ''0''"
    using Cons.prems by (cases cs) auto
  ultimately show ?case
    using Cons.IH by simp
qed

lemma point_zeros_no_point:
  "cp CHR ''.'' \<notin> set s \<Longrightarrow> point_zeros s \<longleftrightarrow> s \<noteq> [] \<and> list_all (\<lambda>x. x = cp CHR ''0'') s"
  by (cases s) (auto simp: point_zeros_def)

lemma strip_zeros_no_point:
  "cp CHR ''.'' \<notin> set s \<Longrightarrow> strip_zeros s = [] \<or> last (strip_zeros s) \<noteq> cp CHR ''0''"
proof (induction s)
  case Nil
  show ?case by simp
next
  case (Cons c cs)
  show ?case
  proof (cases "point_zeros (c # cs)")
    case True
    then show ?thesis by simp
  next
    case False
    note npz = this
    show ?thesis
    proof (cases "strip_zeros cs = []")
      case True
      then have "cs = [] \<or> list_all (\<lambda>x. x = cp CHR ''0'') cs"
        using Cons.prems by (auto simp: strip_zeros_Nil point_zeros_no_point)
      then have "c \<noteq> cp CHR ''0''"
        using npz Cons.prems by (auto simp: point_zeros_no_point)
      with npz True show ?thesis by simp
    next
      case False
      with npz Cons show ?thesis by simp
    qed
  qed
qed

lemma strip_zeros_last:
  "length (filter (\<lambda>x. x = cp CHR ''.'') s) \<le> 1 \<Longrightarrow> cp CHR ''.'' \<in> set (strip_zeros s)
     \<Longrightarrow> last (strip_zeros s) \<noteq> cp CHR ''0''"
proof (induction s)
  case Nil
  then show ?case by simp
next
  case (Cons c cs)
  from Cons.prems(2) have npz: "\<not> point_zeros (c # cs)"
    by (auto split: if_splits)
  show ?case
  proof (cases "strip_zeros cs = []")
    case True
    with npz Cons.prems(2) have "c = cp CHR ''.''" by simp
    with npz True show ?thesis by (simp add: cp_def)
  next
    case False
    note ne = this
    show ?thesis
    proof (cases "cp CHR ''.'' \<in> set (strip_zeros cs)")
      case True
      moreover have "length (filter (\<lambda>x. x = cp CHR ''.'') cs) \<le> 1"
        using Cons.prems(1) by (simp split: if_splits)
      ultimately show ?thesis
        using Cons.IH npz ne by simp
    next
      case False
      with Cons.prems(2) npz have c: "c = cp CHR ''.''" by simp
      with Cons.prems(1) have "cp CHR ''.'' \<notin> set cs"
        by (auto simp: filter_empty_conv)
      with strip_zeros_no_point [of cs] ne npz show ?thesis by simp
    qed
  qed
qed

subsection \<open>Grouping\<close>

text \<open>
  After grouping, the run of digits at a position has the length of the run before, modulo
  three; so a position that got no separator gets none the second time.
\<close>

lemma group_from_subset: "set (group_from p s) \<subseteq> insert (cp CHR '','') (set s)"
  by (induction s arbitrary: p) auto

lemma is_digit_word: "is_digit c \<Longrightarrow> is_word_char c"
  by (simp add: is_word_char_def)

lemma comma_not_digit: "\<not> is_digit (cp CHR '','')"
  by (simp add: is_digit_def cp_def)

lemma comma_not_word: "\<not> is_word_char (cp CHR '','')"
  by (simp add: is_word_char_def is_digit_def cp_def)

lemma group_from_run:
  "length (takeWhile is_digit (group_from True s)) = length (takeWhile is_digit s) mod 3"
proof (induction s)
  case Nil
  show ?case by simp
next
  case (Cons c cs)
  show ?case
  proof (cases "is_digit c")
    case False
    then show ?thesis
      by (simp add: three_digit_groups_def)
  next
    case True
    then have w: "is_word_char c" by (rule is_digit_word)
    show ?thesis
    proof (cases "three_digit_groups (c # cs)")
      case True
      with w \<open>is_digit c\<close> show ?thesis
        by (simp add: three_digit_groups_def comma_not_digit)
    next
      case False
      with \<open>is_digit c\<close> have "Suc (length (takeWhile is_digit cs)) mod 3 \<noteq> 0"
        by (simp add: three_digit_groups_def)
      then have "Suc (length (takeWhile is_digit cs) mod 3) = Suc (length (takeWhile is_digit cs)) mod 3"
        by (simp add: mod_Suc split: if_splits)
      moreover have "group_from True (c # cs) = c # group_from True cs"
        using False w by simp
      ultimately show ?thesis
        using \<open>is_digit c\<close> Cons.IH by simp
    qed
  qed
qed

lemma group_from_idem: "group_from p (group_from p s) = group_from p s"
proof (induction s arbitrary: p)
  case Nil
  show ?case by simp
next
  case (Cons c cs)
  show ?case
  proof (cases "p = is_word_char c \<and> three_digit_groups (c # cs)")
    case True
    then have "is_digit c"
      by (auto simp: three_digit_groups_def split: if_splits)
    then have w: "is_word_char c" by (rule is_digit_word)
    with True have p: "p" by simp
    from True w p show ?thesis
      by (simp add: comma_not_word comma_not_digit three_digit_groups_def Cons.IH)
  next
    case False
    have "\<not> (p = is_word_char c \<and> three_digit_groups (c # group_from (is_word_char c) cs))"
    proof
      assume a: "p = is_word_char c \<and> three_digit_groups (c # group_from (is_word_char c) cs)"
      then have d: "is_digit c"
        by (auto simp: three_digit_groups_def split: if_splits)
      then have w: "is_word_char c" by (rule is_digit_word)
      with a False have n3: "\<not> three_digit_groups (c # cs)" by simp
      from a w d have "Suc (length (takeWhile is_digit cs) mod 3) mod 3 = 0"
        by (simp add: three_digit_groups_def group_from_run)
      moreover from n3 d have "Suc (length (takeWhile is_digit cs)) mod 3 \<noteq> 0"
        by (simp add: three_digit_groups_def)
      ultimately show False
        by (simp add: mod_Suc split: if_splits)
    qed
    then have "group_from p (c # group_from (is_word_char c) cs)
        = c # group_from (is_word_char c) (group_from (is_word_char c) cs)"
      by simp
    moreover have "group_from p (c # cs) = c # group_from (is_word_char c) cs"
      using False by simp
    ultimately show ?thesis
      by (simp only: Cons.IH)
  qed
qed

subsection \<open>The formatter as a whole\<close>

lemma formatDisplay_alt:
  "formatDisplay s =
     (let m = takeWhile (\<lambda>x. x \<noteq> cp CHR ''e'') s;
          ex = dropWhile (\<lambda>x. x \<noteq> cp CHR ''e'') s;
          m1 = (if cp CHR ''.'' \<in> set m then strip_zeros m else m)
      in (if ex = []
          then group_thousands (takeWhile (\<lambda>x. x \<noteq> cp CHR ''.'') m1)
               @ dropWhile (\<lambda>x. x \<noteq> cp CHR ''.'') m1
          else m1) @ ex)"
  unfolding formatDisplay_def Let_def indexOf_take indexOf_drop join_split_head ..

lemma takeWhile_append_stop:
  "\<forall>x\<in>set a. P x \<Longrightarrow> b = [] \<or> \<not> P (hd b) \<Longrightarrow> takeWhile P (a @ b) = a"
  by (cases b) (auto simp: takeWhile_append2)

lemma dropWhile_append_stop:
  "\<forall>x\<in>set a. P x \<Longrightarrow> b = [] \<or> \<not> P (hd b) \<Longrightarrow> dropWhile P (a @ b) = b"
  by (cases b) (auto simp: dropWhile_append2)

lemma dropWhile_stop: "dropWhile P s = [] \<or> \<not> P (hd (dropWhile P s))"
  using hd_dropWhile [of P s] by blast

lemma formatDisplay_idem:
  assumes one: "length (filter (\<lambda>x. x = cp CHR ''.'') (takeWhile (\<lambda>x. x \<noteq> cp CHR ''e'') s)) \<le> 1"
  shows "formatDisplay (formatDisplay s) = formatDisplay s"
proof -
  define m where "m = takeWhile (\<lambda>x. x \<noteq> cp CHR ''e'') s"
  define ex where "ex = dropWhile (\<lambda>x. x \<noteq> cp CHR ''e'') s"
  define m1 where "m1 = (if cp CHR ''.'' \<in> set m then strip_zeros m else m)"
  define a where "a = takeWhile (\<lambda>x. x \<noteq> cp CHR ''.'') m1"
  define b where "b = dropWhile (\<lambda>x. x \<noteq> cp CHR ''.'') m1"
  have fs: "formatDisplay s = (if ex = [] then group_thousands a @ b else m1) @ ex"
    unfolding formatDisplay_alt Let_def a_def b_def m1_def m_def ex_def by (rule refl)
  have m_e: "\<forall>x\<in>set m. x \<noteq> cp CHR ''e''"
    unfolding m_def by (auto dest: set_takeWhileD)
  have m1_sub: "set m1 \<subseteq> set m"
    using strip_zeros_subset [of m] by (auto simp: m1_def)
  have m1_e: "\<forall>x\<in>set m1. x \<noteq> cp CHR ''e''"
    using m_e m1_sub by blast
  have ex_stop: "ex = [] \<or> \<not> (hd ex \<noteq> cp CHR ''e'')"
    unfolding ex_def by (rule dropWhile_stop)
  have last_m1: "last m1 \<noteq> cp CHR ''0''" if "cp CHR ''.'' \<in> set m1"
  proof -
    from that m1_sub have "cp CHR ''.'' \<in> set m" by blast
    then have "m1 = strip_zeros m" by (simp add: m1_def)
    with that one show ?thesis
      using strip_zeros_last [of m] by (simp add: m_def)
  qed
  have fix_m1: "(if cp CHR ''.'' \<in> set m1 then strip_zeros m1 else m1) = m1"
    using last_m1 strip_zeros_fixed [of m1] by auto
  show ?thesis
  proof (cases "ex = []")
    case False
    with fs have f: "formatDisplay s = m1 @ ex" by simp
    have t: "takeWhile (\<lambda>x. x \<noteq> cp CHR ''e'') (m1 @ ex) = m1"
      using m1_e ex_stop by (rule takeWhile_append_stop)
    have d: "dropWhile (\<lambda>x. x \<noteq> cp CHR ''e'') (m1 @ ex) = ex"
      using m1_e ex_stop by (rule dropWhile_append_stop)
    have "formatDisplay (m1 @ ex) = m1 @ ex"
      unfolding formatDisplay_alt [of "m1 @ ex"] t d Let_def fix_m1 using False by simp
    with f show ?thesis by simp
  next
    case True
    define r where "r = group_thousands a @ b"
    from True fs have f: "formatDisplay s = r" by (simp add: r_def)
    have a_dot: "\<forall>x\<in>set a. x \<noteq> cp CHR ''.''"
      unfolding a_def by (auto dest: set_takeWhileD)
    have ga_dot: "\<forall>x\<in>set (group_thousands a). x \<noteq> cp CHR ''.''"
      using a_dot group_from_subset [of False a]
      by (auto simp: group_thousands_def cp_def)
    have b_stop: "b = [] \<or> \<not> (hd b \<noteq> cp CHR ''.'')"
      unfolding b_def by (rule dropWhile_stop)
    have ab: "a @ b = m1"
      by (simp add: a_def b_def)
    have r_e: "\<forall>x\<in>set r. x \<noteq> cp CHR ''e''"
    proof
      fix x assume "x \<in> set r"
      then have "x = cp CHR '','' \<or> x \<in> set m1"
        using group_from_subset [of False a] ab [symmetric]
        by (auto simp: r_def group_thousands_def)
      then show "x \<noteq> cp CHR ''e''"
        using m1_e by (auto simp: cp_def)
    qed
    have t: "takeWhile (\<lambda>x. x \<noteq> cp CHR ''e'') r = r"
      using r_e by (simp add: takeWhile_eq_all_conv)
    have d: "dropWhile (\<lambda>x. x \<noteq> cp CHR ''e'') r = []"
      using r_e by simp
    have fix_r: "(if cp CHR ''.'' \<in> set r then strip_zeros r else r) = r"
    proof (cases "cp CHR ''.'' \<in> set r")
      case False
      then show ?thesis by simp
    next
      case True
      with ga_dot have bne: "b \<noteq> []" by (auto simp: r_def)
      then have "cp CHR ''.'' \<in> set m1"
        using b_stop ab [symmetric] by (cases b) auto
      then have "last m1 \<noteq> cp CHR ''0''" by (rule last_m1)
      moreover have "last r = last m1"
        using bne ab [symmetric] by (simp add: r_def)
      ultimately show ?thesis
        using strip_zeros_fixed [of r] by simp
    qed
    have ta: "takeWhile (\<lambda>x. x \<noteq> cp CHR ''.'') r = group_thousands a"
      unfolding r_def using ga_dot b_stop by (rule takeWhile_append_stop)
    have da: "dropWhile (\<lambda>x. x \<noteq> cp CHR ''.'') r = b"
      unfolding r_def using ga_dot b_stop by (rule dropWhile_append_stop)
    have "formatDisplay r = group_thousands (group_thousands a) @ b"
      unfolding formatDisplay_alt [of r] t d Let_def fix_r ta da by simp
    then have "formatDisplay r = r"
      by (simp add: r_def group_thousands_def group_from_idem)
    with f show ?thesis by simp
  qed
qed

lemma raw_notation_one_point:
  assumes "raw_notation s"
  shows "length (filter (\<lambda>x. x = cp CHR ''.'') (takeWhile (\<lambda>x. x \<noteq> cp CHR ''e'') s)) \<le> 1"
proof -
  define m where "m = takeWhile (\<lambda>x. x \<noteq> cp CHR ''e'') s"
  from assms have "length (filter (\<lambda>c. c = cp CHR ''.'') (unsigned m)) \<le> 1"
    by (simp add: raw_notation_def decimal_numeral_def Let_def m_def)
  then have "length (filter (\<lambda>c. c = cp CHR ''.'') m) \<le> 1"
    by (cases m) (auto simp: unsigned_def cp_def split: if_splits)
  then show ?thesis by (simp add: m_def)
qed

text \<open>
  C7: for every stored raw auto-notation string (a decimal numeral with at most one decimal
  point, optionally followed by a lowercase-e exponent suffix), applying \<^verbatim>\<open>formatNumber\<close>
  twice gives the same string as applying it once.
\<close>

theorem formatNumber_idempotent:
  "raw_notation s \<Longrightarrow> formatNumber (formatNumber s) = formatNumber s"
  unfolding formatNumber_def by (rule formatDisplay_idem) (rule raw_notation_one_point)

theorem formatNumber_idempotent_witness:
  "raw_notation (ascii ''1234567.50'')
   \<and> formatNumber (ascii ''1234567.50'') = ascii ''1,234,567.5''
   \<and> formatNumber (formatNumber (ascii ''1234567.50'')) = formatNumber (ascii ''1234567.50'')"
proof -
  have r: "raw_notation (ascii ''1234567.50'')" by code_simp
  have v: "formatNumber (ascii ''1234567.50'') = ascii ''1,234,567.5''" by code_simp
  from r v formatNumber_idempotent [OF r] show ?thesis by simp
qed

section \<open>Evaluating concrete runs\<close>

lemmas demo_defs =
  demo_engine_def demo_evaluate_def demo_typeOf_def demo_format_def demo_number_def
  demo_unicode_def after_100_def initial_def

lemmas run_defs =
  process_line_def run_engine_def engine_input_def chain_def bind_ans_def classify_def trim_def
  is_js_space_def is_separator_def has_math_char_def has_operator_def has_math_word_def
  MATH_WORDS_def word_at_def to_upper_def is_word_char_def BINARY_OPERATORS_def
  resultToDisplay_def resultToNumber_def percent_literal_def ident_start_def ident_part_def
  hasUnicodeLetter_def getAlias_def ascii_def cp_def is_digit_def Let_def decimal.simps

section \<open>Driver: one result per line\<close>

lemma split_on_length: "length (split_on c s) = Suc (count_list s c)"
  by (induction s) (auto simp: Let_def split_on_nonempty)

lemma process_lines_acc:
  "process_lines E U st rs ls
     = (rs @ fst (process_lines E U st [] ls), snd (process_lines E U st [] ls))"
proof (induction ls arbitrary: st rs)
  case Nil
  show ?case by simp
next
  case (Cons l ls)
  obtain r st1 where step: "process_line E U st l = (r, st1)"
    by (cases "process_line E U st l")
  show ?case
    using Cons.IH [of st1 "rs @ [r]"] Cons.IH [of st1 "[r]"] by (simp add: step)
qed

lemma process_lines_Cons:
  "process_lines E U st [] (l # ls)
     = (fst (process_line E U st l) # fst (process_lines E U (snd (process_line E U st l)) [] ls),
        snd (process_lines E U (snd (process_line E U st l)) [] ls))"
  using process_lines_acc [of E U "snd (process_line E U st l)" "[fst (process_line E U st l)]" ls]
  by (simp add: case_prod_beta)

lemma process_lines_length: "length (fst (process_lines E U st [] ls)) = length ls"
  by (induction ls arbitrary: st) (simp_all add: process_lines_Cons del: process_lines.simps(2))

lemma process_lines_nth:
  "i < length ls \<Longrightarrow>
     fst (process_lines E U st [] ls) ! i
       = fst (process_line E U (snd (process_lines E U st [] (take i ls))) (ls ! i))"
proof (induction ls arbitrary: st i)
  case Nil
  then show ?case by simp
next
  case (Cons l ls)
  show ?case
  proof (cases i)
    case 0
    then show ?thesis
      by (simp add: process_lines_Cons del: process_lines.simps(2))
  next
    case (Suc j)
    with Cons.prems have "j < length ls" by simp
    from Cons.IH [OF this] Suc show ?thesis
      by (simp add: process_lines_Cons del: process_lines.simps(2))
  qed
qed

text \<open>
  C1: for every document, \<^verbatim>\<open>calculate\<close> produces exactly one result per input line, the
  lines being the pieces of the document between newline characters: there are as many
  results as lines, one more than the document has newline characters, and the result at
  position \<open>i\<close> is the one that line \<open>i\<close> produced in the state the lines before it left.
\<close>

theorem calculate_one_result_per_line:
  "length (lines (calculate E U text)) = length (split_on (cp CHR 0x0A) text)
   \<and> length (split_on (cp CHR 0x0A) text) = Suc (count_list text (cp CHR 0x0A))
   \<and> (\<forall>i < length (split_on (cp CHR 0x0A) text).
         lines (calculate E U text) ! i
           = fst (process_line E U
                   (snd (process_lines E U initial [] (take i (split_on (cp CHR 0x0A) text))))
                   (split_on (cp CHR 0x0A) text ! i)))"
  by (simp add: calculate_def process_lines_length process_lines_nth split_on_length)

theorem calculate_one_result_per_line_witness:
  "length (lines (calculate demo_engine demo_unicode (ascii ''100\<newline>* 80%''))) = 2
   \<and> lines (calculate demo_engine demo_unicode (ascii ''100\<newline>* 80%'')) ! 1
       = Display (ascii ''80'') 80"
proof -
  let ?doc = "ascii ''100\<newline>* 80%''"
  let ?res = "lines (calculate demo_engine demo_unicode ?doc)"
  have s: "split_on (cp CHR 0x0A) ?doc = [ascii ''100'', ascii ''* 80%'']"
    by (simp add: ascii_def cp_def Let_def)
  have 1: "process_line demo_engine demo_unicode initial (ascii ''100'')
             = (Display (ascii ''100'') 100, after_100)"
    by (simp add: run_defs demo_defs Display_def)
  have 2: "fst (process_line demo_engine demo_unicode after_100 (ascii ''* 80%''))
             = Display (ascii ''80'') 80"
    by (simp add: run_defs demo_defs Display_def)
  note t = calculate_one_result_per_line [of demo_engine demo_unicode ?doc, unfolded s]
  from t have len: "length ?res = 2"
    by simp
  from t have "\<forall>i < length [ascii ''100'', ascii ''* 80%''].
      ?res ! i = fst (process_line demo_engine demo_unicode
                   (snd (process_lines demo_engine demo_unicode initial []
                          (take i [ascii ''100'', ascii ''* 80%''])))
                   ([ascii ''100'', ascii ''* 80%''] ! i))"
    by blast
  from this [rule_format, of 1] have "?res ! 1 = Display (ascii ''80'') 80"
    by (simp add: 1 2)
  with len show ?thesis by simp
qed

section \<open>Driver: skipped lines\<close>

text \<open>
  C5: a line classified as blank, comment, separator or prose yields a \<open>Blank\<close> result and
  leaves the previous answer, the variable scope and the alias table as they were.
\<close>

theorem skipped_line_blank_and_unchanged:
  "classify (mapping st) (scope st) (trim raw) \<in> {BlankLine, Comment, Separator, Prose}
     \<Longrightarrow> process_line E U st raw = (Blank, st)"
  by (auto simp: process_line_def)

theorem skipped_line_blank_and_unchanged_witness:
  "classify (mapping after_100) (scope after_100) (trim (ascii '' rent and power ''))
     \<in> {BlankLine, Comment, Separator, Prose}
   \<and> process_line demo_engine demo_unicode after_100 (ascii '' rent and power '')
       = (Blank, after_100)"
proof -
  have c: "classify (mapping after_100) (scope after_100) (trim (ascii '' rent and power ''))
             \<in> {BlankLine, Comment, Separator, Prose}"
    by (simp add: run_defs demo_defs)
  from c skipped_line_blank_and_unchanged [OF c] show ?thesis by simp
qed


section \<open>Driver: evaluated lines\<close>

lemma process_line_eligible:
  "classify (mapping st) (scope st) (trim raw) = Eligible \<Longrightarrow>
     process_line E U st raw
       = run_engine E st (bind_ans (previousAnswer st) (scope st)) (engine_input E U st (trim raw))"
  by (simp add: process_line_def)

lemma run_engine_threw:
  "fst (math_evaluate E (fst input) sc) = Threw \<Longrightarrow>
     fst (run_engine E st sc input) = Error
     \<and> previousAnswer (snd (run_engine E st sc input)) = previousAnswer st"
  by (simp add: run_engine_def case_prod_beta)

lemma run_engine_other_type:
  "fst (math_evaluate E (fst input) sc) = Returned v \<Longrightarrow>
   math_typeOf E v \<noteq> ''BigNumber'' \<Longrightarrow> math_typeOf E v \<noteq> ''number'' \<Longrightarrow>
     fst (run_engine E st sc input) = Blank
     \<and> previousAnswer (snd (run_engine E st sc input)) = previousAnswer st"
  by (simp add: run_engine_def case_prod_beta resultToDisplay_def)

lemma bind_ans_lookup: "prev \<noteq> Null \<Longrightarrow> bind_ans prev sc (ascii ''ans'') = Some prev"
  by (simp add: bind_ans_def)

text \<open>
  C2: on an eligible line for which the engine throws, the stored result is \<open>Error\<close> and the
  previous answer is left unchanged; so when there was a previous answer, the scope that the
  next evaluation hands to the engine still binds \<^verbatim>\<open>ans\<close> to it.
\<close>

theorem engine_error_keeps_previous_answer:
  assumes "classify (mapping st) (scope st) (trim raw) = Eligible"
    and "fst (math_evaluate E (fst (engine_input E U st (trim raw)))
               (bind_ans (previousAnswer st) (scope st))) = Threw"
  shows "fst (process_line E U st raw) = Error
    \<and> previousAnswer (snd (process_line E U st raw)) = previousAnswer st
    \<and> (previousAnswer st \<noteq> Null \<longrightarrow>
         bind_ans (previousAnswer (snd (process_line E U st raw)))
           (scope (snd (process_line E U st raw))) (ascii ''ans'') = Some (previousAnswer st))"
proof -
  have "fst (process_line E U st raw) = Error
      \<and> previousAnswer (snd (process_line E U st raw)) = previousAnswer st"
    unfolding process_line_eligible [OF assms(1)] using assms(2) by (rule run_engine_threw)
  then show ?thesis
    by (simp add: bind_ans_lookup)
qed

theorem engine_error_keeps_previous_answer_witness:
  "classify (mapping after_100) (scope after_100) (trim (ascii ''1+'')) = Eligible
   \<and> fst (process_line demo_engine demo_unicode after_100 (ascii ''1+'')) = Error
   \<and> previousAnswer (snd (process_line demo_engine demo_unicode after_100 (ascii ''1+'')))
       = Val (Num 100)
   \<and> bind_ans (previousAnswer (snd (process_line demo_engine demo_unicode after_100 (ascii ''1+''))))
        (scope (snd (process_line demo_engine demo_unicode after_100 (ascii ''1+''))))
        (ascii ''ans'') = Some (Val (Num 100))"
proof -
  have c: "classify (mapping after_100) (scope after_100) (trim (ascii ''1+'')) = Eligible"
    by (simp add: run_defs demo_defs)
  have t: "fst (math_evaluate demo_engine
                 (fst (engine_input demo_engine demo_unicode after_100 (trim (ascii ''1+''))))
                 (bind_ans (previousAnswer after_100) (scope after_100))) = Threw"
    by (simp add: run_defs demo_defs)
  have p: "previousAnswer after_100 = Val (Num 100)"
    by (simp add: after_100_def)
  from engine_error_keeps_previous_answer [OF c t] c show ?thesis
    by (simp add: p bind_ans_lookup)
qed

text \<open>
  C9: on an evaluated line for which the engine returns a value whose type is neither
  \<^verbatim>\<open>BigNumber\<close> nor \<^verbatim>\<open>number\<close>, the stored result is \<open>Blank\<close>, not \<open>Error\<close>, and the
  previous answer is not updated.
\<close>

theorem non_numeric_result_is_blank:
  assumes "classify (mapping st) (scope st) (trim raw) = Eligible"
    and "fst (math_evaluate E (fst (engine_input E U st (trim raw)))
               (bind_ans (previousAnswer st) (scope st))) = Returned v"
    and "math_typeOf E v \<noteq> ''BigNumber''" and "math_typeOf E v \<noteq> ''number''"
  shows "fst (process_line E U st raw) = Blank
    \<and> fst (process_line E U st raw) \<noteq> Error
    \<and> previousAnswer (snd (process_line E U st raw)) = previousAnswer st"
proof -
  have "fst (process_line E U st raw) = Blank
      \<and> previousAnswer (snd (process_line E U st raw)) = previousAnswer st"
    unfolding process_line_eligible [OF assms(1)] using assms(2-4) by (rule run_engine_other_type)
  then show ?thesis
    by (simp add: Blank_def Error_def)
qed

theorem non_numeric_result_is_blank_witness:
  "classify (mapping after_100) (scope after_100) (trim (ascii ''[1]'')) = Eligible
   \<and> fst (math_evaluate demo_engine
            (fst (engine_input demo_engine demo_unicode after_100 (trim (ascii ''[1]''))))
            (bind_ans (previousAnswer after_100) (scope after_100))) = Returned (Val Matrix)
   \<and> math_typeOf demo_engine (Val Matrix) = ''Matrix''
   \<and> fst (process_line demo_engine demo_unicode after_100 (ascii ''[1]'')) = Blank
   \<and> previousAnswer (snd (process_line demo_engine demo_unicode after_100 (ascii ''[1]'')))
       = Val (Num 100)"
proof -
  have c: "classify (mapping after_100) (scope after_100) (trim (ascii ''[1]'')) = Eligible"
    by (simp add: run_defs demo_defs)
  have r: "fst (math_evaluate demo_engine
                 (fst (engine_input demo_engine demo_unicode after_100 (trim (ascii ''[1]''))))
                 (bind_ans (previousAnswer after_100) (scope after_100))) = Returned (Val Matrix)"
    by (simp add: run_defs demo_defs)
  have ty: "math_typeOf demo_engine (Val Matrix) = ''Matrix''"
    by (simp add: demo_defs)
  have n1: "math_typeOf demo_engine (Val Matrix) \<noteq> ''BigNumber''"
    and n2: "math_typeOf demo_engine (Val Matrix) \<noteq> ''number''"
    by (simp_all add: ty)
  have p: "previousAnswer after_100 = Val (Num 100)"
    by (simp add: after_100_def)
  from non_numeric_result_is_blank [OF c r n1 n2] c r ty show ?thesis
    by (simp add: p)
qed

text \<open>
  C4: when a previous answer exists and the eligible trimmed line starts with one of
  \<^verbatim>\<open>+ - * /\<close>, the line is evaluated as the previous answer's formatted string followed by
  the line: that text goes through percent expansion and alias substitution, and the engine
  evaluates the outcome.
\<close>

theorem chained_line_evaluated_with_prefix:
  assumes "previousAnswer st \<noteq> Null"
    and "classify (mapping st) (scope st) (trim raw) = Eligible"
    and "trim raw = c # rest" and "c \<in> set BINARY_OPERATORS"
  shows "process_line E U st raw
    = run_engine E st (bind_ans (previousAnswer st) (scope st))
        (replaceChineseVars U
           (preprocessPercent (math_format E (previousAnswer st) @ trim raw)) (mapping st))"
  unfolding process_line_eligible [OF assms(2)] using assms(1,3,4)
  by (simp add: engine_input_def chain_def)

theorem chained_line_evaluated_with_prefix_witness:
  "previousAnswer after_100 \<noteq> Null
   \<and> classify (mapping after_100) (scope after_100) (trim (ascii ''* 80%'')) = Eligible
   \<and> trim (ascii ''* 80%'') = cp CHR ''*'' # ascii '' 80%''
   \<and> cp CHR ''*'' \<in> set BINARY_OPERATORS
   \<and> math_format demo_engine (previousAnswer after_100) = ascii ''100''
   \<and> fst (replaceChineseVars demo_unicode
            (preprocessPercent (math_format demo_engine (previousAnswer after_100)
               @ trim (ascii ''* 80%''))) (mapping after_100)) = ascii ''100* (80/100)''
   \<and> process_line demo_engine demo_unicode after_100 (ascii ''* 80%'')
       = run_engine demo_engine after_100 (bind_ans (previousAnswer after_100) (scope after_100))
           (replaceChineseVars demo_unicode
              (preprocessPercent (math_format demo_engine (previousAnswer after_100)
                 @ trim (ascii ''* 80%''))) (mapping after_100))"
proof -
  have p: "previousAnswer after_100 \<noteq> Null"
    by (simp add: after_100_def)
  have c: "classify (mapping after_100) (scope after_100) (trim (ascii ''* 80%'')) = Eligible"
    by (simp add: run_defs demo_defs)
  have t: "trim (ascii ''* 80%'') = cp CHR ''*'' # ascii '' 80%''"
    by (simp add: run_defs)
  have b: "cp CHR ''*'' \<in> set BINARY_OPERATORS"
    by (simp add: run_defs)
  have f: "math_format demo_engine (previousAnswer after_100) = ascii ''100''"
    by (simp add: run_defs demo_defs)
  have e: "fst (replaceChineseVars demo_unicode
            (preprocessPercent (math_format demo_engine (previousAnswer after_100)
               @ trim (ascii ''* 80%''))) (mapping after_100)) = ascii ''100* (80/100)''"
    by (simp add: run_defs demo_defs)
  from chained_line_evaluated_with_prefix [OF p c t b] p c t b f e show ?thesis
    by blast
qed

section \<open>Percent expansion\<close>

lemma percent_literal_Some:
  assumes "percent_literal s = Some (literal, rest)"
  shows "s = literal @ cp CHR ''%'' # rest"
    and "literal \<noteq> []"
    and "\<forall>x\<in>set literal. is_digit x \<or> x = cp CHR ''.''"
    and "is_digit (hd literal)"
proof -
  let ?d1 = "takeWhile is_digit s" and ?r1 = "dropWhile is_digit s"
  have 1: "?d1 @ ?r1 = s"
    by (rule takeWhile_dropWhile_id)
  have d1: "\<forall>x\<in>set ?d1. is_digit x"
    by (auto dest: set_takeWhileD)
  from assms have ne: "?d1 \<noteq> []"
    by (auto simp: percent_literal_def Let_def split: if_splits)
  then have hd1: "is_digit (hd ?d1)"
    using d1 by (cases ?d1) auto
  obtain d r2 where r1: "?r1 = d # r2"
    using assms ne by (cases ?r1) (auto simp: percent_literal_def Let_def)
  have "s = literal @ cp CHR ''%'' # rest \<and> literal \<noteq> []
      \<and> (\<forall>x\<in>set literal. is_digit x \<or> x = cp CHR ''.'') \<and> is_digit (hd literal)"
  proof (cases "d = cp CHR ''%''")
    case True
    with assms r1 ne have "literal = ?d1 \<and> rest = r2"
      by (auto simp: percent_literal_def Let_def split: if_splits)
    with 1 r1 True ne d1 hd1 show ?thesis by metis
  next
    case False
    let ?d2 = "takeWhile is_digit r2"
    have 2: "?d2 @ dropWhile is_digit r2 = r2"
      by (rule takeWhile_dropWhile_id)
    have d2: "\<forall>x\<in>set ?d2. is_digit x"
      by (auto dest: set_takeWhileD)
    from False assms r1 ne obtain r4 where
      d: "d = cp CHR ''.''" and r3: "dropWhile is_digit r2 = cp CHR ''%'' # r4" and
      l: "literal = ?d1 @ cp CHR ''.'' # ?d2" and r: "rest = r4"
      unfolding percent_literal_def Let_def r1
      by (auto split: if_splits list.splits)
    have "s = literal @ cp CHR ''%'' # rest"
      using 1 2 r1 d r3 l r by (metis append.assoc append_Cons)
    moreover have "\<forall>x\<in>set literal. is_digit x \<or> x = cp CHR ''.''"
      using d1 d2 l by auto
    moreover have "hd literal = hd ?d1"
      using ne l by simp
    ultimately show ?thesis
      using ne l hd1 by simp
  qed
  then show "s = literal @ cp CHR ''%'' # rest"
    and "literal \<noteq> []"
    and "\<forall>x\<in>set literal. is_digit x \<or> x = cp CHR ''.''"
    and "is_digit (hd literal)"
    by simp_all
qed

lemma percent_literal_digit_percent:
  "is_digit c \<Longrightarrow> percent_literal (c # cp CHR ''%'' # cs) \<noteq> None"
  by (simp add: percent_literal_def Let_def is_digit_def cp_def)

lemma percent_not_digit: "\<not> is_digit (cp CHR ''%'')"
  by (simp add: is_digit_def cp_def)

lemma preprocessPercent_starts_percent:
  assumes a: "preprocessPercent s = cp CHR ''%'' # t"
  shows "\<exists>t'. s = cp CHR ''%'' # t'"
proof (cases s)
  case Nil
  with a show ?thesis by simp
next
  case (Cons c cs)
  show ?thesis
  proof (cases "percent_literal (c # cs)")
    case None
    with a Cons show ?thesis by simp
  next
    case (Some p)
    with a Cons show ?thesis
      by (cases p) (simp add: ascii_def cp_def)
  qed
qed

lemma digit_before_percent_Cons:
  "digit_before_percent (a # s)
     \<longleftrightarrow> (is_digit a \<and> (\<exists>t. s = cp CHR ''%'' # t)) \<or> digit_before_percent s"
  by (cases s) auto

lemma digit_before_percent_append:
  "cp CHR ''%'' \<notin> set a \<Longrightarrow> a \<noteq> [] \<Longrightarrow> \<not> is_digit (last a) \<Longrightarrow>
     digit_before_percent (a @ b) = digit_before_percent b"
proof (induction a)
  case Nil
  then show ?case by simp
next
  case (Cons x a)
  show ?case
  proof (cases a)
    case Nil
    with Cons.prems show ?thesis
      by (simp add: digit_before_percent_Cons)
  next
    case (Cons y ys)
    with Cons.prems Cons.IH show ?thesis
      by (auto simp: digit_before_percent_Cons)
  qed
qed

lemma replacement_shape:
  assumes "\<forall>x\<in>set literal. is_digit x \<or> x = cp CHR ''.''"
  shows "cp CHR ''%'' \<notin> set (ascii ''('' @ literal @ ascii ''/100)'')"
    and "\<not> is_digit (last (ascii ''('' @ literal @ ascii ''/100)''))"
  using assms by (auto simp: ascii_def cp_def is_digit_def)

lemma preprocessPercent_no_digit_percent: "\<not> digit_before_percent (preprocessPercent s)"
proof (induction s rule: preprocessPercent.induct)
  case 1
  show ?case by simp
next
  case (2 c cs)
  show ?case
  proof (cases "percent_literal (c # cs)")
    case None
    have "\<not> (is_digit c \<and> (\<exists>t. preprocessPercent cs = cp CHR ''%'' # t))"
    proof
      assume a: "is_digit c \<and> (\<exists>t. preprocessPercent cs = cp CHR ''%'' # t)"
      then obtain t' where "cs = cp CHR ''%'' # t'"
        using preprocessPercent_starts_percent by blast
      with a None show False
        using percent_literal_digit_percent by blast
    qed
    with None 2(1) [OF None] show ?thesis
      by (simp add: digit_before_percent_Cons)
  next
    case (Some p)
    obtain literal rest where p: "p = (literal, rest)" by (cases p)
    from Some p have m: "percent_literal (c # cs) = Some (literal, rest)" by simp
    let ?rep = "ascii ''('' @ literal @ ascii ''/100)''"
    have "digit_before_percent (?rep @ preprocessPercent rest)
        = digit_before_percent (preprocessPercent rest)"
      using replacement_shape [OF percent_literal_Some(3) [OF m]]
      by (intro digit_before_percent_append) (simp_all add: ascii_def)
    with m 2(2) [OF m refl] show ?thesis
      by simp
  qed
qed

lemma preprocessPercent_chars:
  "set (preprocessPercent s) \<subseteq> set s \<union> set (ascii ''(/100)'')"
proof (induction s rule: preprocessPercent.induct)
  case 1
  show ?case by simp
next
  case (2 c cs)
  show ?case
  proof (cases "percent_literal (c # cs)")
    case None
    have "preprocessPercent (c # cs) = c # preprocessPercent cs"
      using None by simp
    with 2(1) [OF None] show ?thesis by auto
  next
    case (Some p)
    obtain literal rest where p: "p = (literal, rest)" by (cases p)
    from Some p have m: "percent_literal (c # cs) = Some (literal, rest)" by simp
    have "set (c # cs) = set (literal @ cp CHR ''%'' # rest)"
      using percent_literal_Some(1) [OF m] by (rule arg_cong)
    then have sub: "set literal \<subseteq> set (c # cs)" and "set rest \<subseteq> set (c # cs)"
      by auto
    with 2(2) [OF m refl] have rest: "set (preprocessPercent rest) \<subseteq> set (c # cs) \<union> set (ascii ''(/100)'')"
      by blast
    have out: "preprocessPercent (c # cs) = ascii ''('' @ literal @ ascii ''/100)'' @ preprocessPercent rest"
      using m by simp
    have "set (ascii ''('') \<union> set (ascii ''/100)'') \<subseteq> set (ascii ''(/100)'')"
      by (simp add: ascii_def)
    with sub rest show ?thesis
      unfolding out by (simp only: set_append) blast
  qed
qed

lemma preprocessPercent_ascii:
  assumes "\<not> hasUnicodeLetter s"
  shows "\<not> hasUnicodeLetter (preprocessPercent s)"
proof -
  have "\<forall>c\<in>set (ascii ''(/100)''). \<not> 127 < c"
    by (simp add: ascii_def cp_def)
  with assms preprocessPercent_chars [of s] show ?thesis
    by (auto simp: hasUnicodeLetter_def list_ex_iff)
qed

lemma replaceChineseVars_ascii:
  "\<not> hasUnicodeLetter s \<Longrightarrow> replaceChineseVars U s m = (s, m)"
proof (induction U s m rule: replaceChineseVars.induct)
  case (1 U m)
  show ?case by simp
next
  case (2 U c cs m)
  show ?case
  proof (cases "ident_start U c")
    case False
    from "2.prems" have "\<not> hasUnicodeLetter cs"
      by (simp add: hasUnicodeLetter_def)
    with 2(2) [OF False] False show ?thesis by simp
  next
    case True
    let ?match = "c # takeWhile (ident_part U) cs"
    let ?rest = "dropWhile (ident_part U) cs"
    have split: "?match @ ?rest = c # cs"
      by simp
    from "2.prems" have nm: "\<not> hasUnicodeLetter ?match" and nr: "\<not> hasUnicodeLetter ?rest"
      by (auto simp: hasUnicodeLetter_def list_ex_iff dest: set_takeWhileD set_dropWhileD)
    have "(?match, m) = (if hasUnicodeLetter ?match then getAlias m ?match else (?match, m))"
      using nm by simp
    from 2(1) [OF True refl refl refl this nr] have "replaceChineseVars U ?rest m = (?rest, m)" .
    with True nm split show ?thesis
      by (simp add: Let_def)
  qed
qed

subsection \<open>Literals in place\<close>

lemma takeWhile_stops_inside:
  "\<exists>x\<in>set a. \<not> P x \<Longrightarrow> takeWhile P (a @ b) = takeWhile P a \<and> dropWhile P (a @ b) = dropWhile P a @ b"
  by (induction a) auto

lemma literal_cut_not_all_digits: "literal_cut s \<Longrightarrow> s \<noteq> [] \<Longrightarrow> \<exists>x\<in>set s. \<not> is_digit x"
proof -
  assume c: "literal_cut s" and ne: "s \<noteq> []"
  then obtain x r where r: "rev s = x # r" by (cases "rev s") auto
  with c have "\<not> is_digit x" by (simp add: literal_cut_def)
  moreover from r have "x \<in> set s" by (metis list.set_intros(1) set_rev)
  ultimately show ?thesis by blast
qed

lemma literal_cut_suffix: "literal_cut (a @ b) \<Longrightarrow> literal_cut b"
proof (cases "rev b")
  case Nil
  then show "literal_cut b" by (simp add: literal_cut_def)
next
  case (Cons x r)
  assume c: "literal_cut (a @ b)"
  show "literal_cut b"
  proof (cases r)
    case Nil
    with c Cons show ?thesis by (simp add: literal_cut_def)
  next
    case (Cons y r')
    with c \<open>rev b = x # r\<close> show ?thesis by (simp add: literal_cut_def)
  qed
qed

lemma percent_literal_append:
  assumes cut: "literal_cut s" and ne: "s \<noteq> []"
  shows "percent_literal (s @ t)
    = (case percent_literal s of None \<Rightarrow> None | Some (lit, r) \<Rightarrow> Some (lit, r @ t))"
proof (cases "takeWhile is_digit s = []")
  case True
  then have "takeWhile is_digit (s @ t) = []"
    using ne by (cases s) (auto split: if_splits)
  with True show ?thesis
    by (simp add: percent_literal_def)
next
  case False
  note d1 = this
  have 1: "takeWhile is_digit (s @ t) = takeWhile is_digit s"
    and 2: "dropWhile is_digit (s @ t) = dropWhile is_digit s @ t"
    using takeWhile_stops_inside [OF literal_cut_not_all_digits [OF cut ne]] by simp_all
  have r1ne: "dropWhile is_digit s \<noteq> []"
    using literal_cut_not_all_digits [OF cut ne] by simp
  then obtain c r2 where r1: "dropWhile is_digit s = c # r2"
    by (cases "dropWhile is_digit s") auto
  have s: "s = takeWhile is_digit s @ c # r2"
    using r1 by (metis takeWhile_dropWhile_id)
  show ?thesis
  proof (cases "c = cp CHR ''.''")
    case False
    then show ?thesis
      by (simp add: percent_literal_def Let_def 1 2 r1 d1)
  next
    case True
    have cut2: "literal_cut (c # r2)"
      using cut s literal_cut_suffix by metis
    have r2ne: "r2 \<noteq> []"
    proof
      assume "r2 = []"
      with s have "rev s = c # rev (takeWhile is_digit s)" by (metis rev.simps(2) rev_append rev_singleton_conv append_Nil rev_rev_ident)
      moreover have "rev (takeWhile is_digit s) \<noteq> []" using d1 by simp
      moreover have "is_digit (hd (rev (takeWhile is_digit s)))"
        using d1 by (metis hd_rev last_in_set set_takeWhileD)
      ultimately show False
        using cut True by (cases "rev (takeWhile is_digit s)") (auto simp: literal_cut_def)
    qed
    have cut3: "literal_cut r2"
      using cut2 literal_cut_suffix [of "[c]" r2] by simp
    have 3: "takeWhile is_digit (r2 @ t) = takeWhile is_digit r2"
      and 4: "dropWhile is_digit (r2 @ t) = dropWhile is_digit r2 @ t"
      using takeWhile_stops_inside [OF literal_cut_not_all_digits [OF cut3 r2ne]] by simp_all
    have r3ne: "dropWhile is_digit r2 \<noteq> []"
      using literal_cut_not_all_digits [OF cut3 r2ne] by simp
    then obtain c' r4 where r3: "dropWhile is_digit r2 = c' # r4"
      by (cases "dropWhile is_digit r2") auto
    from True show ?thesis
      by (simp add: percent_literal_def Let_def 1 2 r1 d1 3 4 r3 cp_def)
  qed
qed

lemma preprocessPercent_append:
  "literal_cut pre \<Longrightarrow> preprocessPercent (pre @ t) = preprocessPercent pre @ preprocessPercent t"
proof (induction pre rule: preprocessPercent.induct)
  case 1
  show ?case by simp
next
  case (2 c cs)
  note app = percent_literal_append [OF "2.prems", of t, simplified]
  show ?case
  proof (cases "percent_literal (c # cs)")
    case None
    with app have n: "percent_literal (c # cs @ t) = None" by simp
    have "literal_cut cs"
      using "2.prems" literal_cut_suffix [of "[c]" cs] by simp
    with 2(1) [OF None] None n show ?thesis by simp
  next
    case (Some p)
    obtain literal rest where p: "p = (literal, rest)" by (cases p)
    from Some p have m: "percent_literal (c # cs) = Some (literal, rest)" by simp
    with app have m': "percent_literal (c # cs @ t) = Some (literal, rest @ t)" by simp
    have "literal_cut rest"
      using "2.prems" percent_literal_Some(1) [OF m] literal_cut_suffix [of "literal @ [cp CHR ''%'']" rest]
      by simp
    with 2(2) [OF m refl] m m' show ?thesis by simp
  qed
qed

lemma percent_literal_numeric:
  assumes "numeric_literal lit"
  shows "percent_literal (lit @ cp CHR ''%'' # post) = Some (lit, post)"
proof -
  let ?d1 = "takeWhile is_digit lit" and ?r = "dropWhile is_digit lit"
  have lit: "lit = ?d1 @ ?r" by simp
  from assms have d1: "?d1 \<noteq> []"
    by (simp add: numeric_literal_def Let_def)
  have pd: "\<not> is_digit (cp CHR ''%'')" and dd: "\<not> is_digit (cp CHR ''.'')"
    by (simp_all add: is_digit_def cp_def)
  show ?thesis
  proof (cases ?r)
    case Nil
    then have all: "\<forall>x\<in>set lit. is_digit x"
      by simp
    then have "takeWhile is_digit (lit @ cp CHR ''%'' # post) = lit"
      and "dropWhile is_digit (lit @ cp CHR ''%'' # post) = cp CHR ''%'' # post"
      using pd by (simp_all add: takeWhile_append2 dropWhile_append2)
    moreover have "lit \<noteq> []" using d1 by auto
    ultimately show ?thesis
      by (simp add: percent_literal_def Let_def)
  next
    case (Cons c d2)
    with assms have c: "c = cp CHR ''.''" and d2: "d2 \<noteq> []" and all2: "\<forall>x\<in>set d2. is_digit x"
      by (simp_all add: numeric_literal_def Let_def list_all_iff)
    have l: "lit = ?d1 @ cp CHR ''.'' # d2"
      using lit Cons c by metis
    have a1: "\<forall>x\<in>set ?d1. is_digit x"
      by (auto dest: set_takeWhileD)
    have t1: "takeWhile is_digit ((?d1 @ cp CHR ''.'' # d2) @ cp CHR ''%'' # post) = ?d1"
      and r1: "dropWhile is_digit ((?d1 @ cp CHR ''.'' # d2) @ cp CHR ''%'' # post)
          = cp CHR ''.'' # d2 @ cp CHR ''%'' # post"
      using a1 dd by (simp_all add: takeWhile_append2 dropWhile_append2 del: takeWhile_append dropWhile_append)
    have t2: "takeWhile is_digit (d2 @ cp CHR ''%'' # post) = d2"
      and r2: "dropWhile is_digit (d2 @ cp CHR ''%'' # post) = cp CHR ''%'' # post"
      using all2 pd by (simp_all add: takeWhile_append2 dropWhile_append2)
    have "percent_literal ((?d1 @ cp CHR ''.'' # d2) @ cp CHR ''%'' # post)
        = Some (?d1 @ cp CHR ''.'' # d2, post)"
      unfolding percent_literal_def Let_def t1 r1 using d1 d2 t2 r2 by (simp add: cp_def)
    with l show ?thesis by metis
  qed
qed

lemma preprocessPercent_literal:
  assumes "numeric_literal lit" and "literal_cut pre"
  shows "preprocessPercent (pre @ lit @ cp CHR ''%'' # post)
    = preprocessPercent pre @ ascii ''('' @ lit @ ascii ''/100)'' @ preprocessPercent post"
proof -
  from assms(1) have "lit \<noteq> []"
    by (auto simp: numeric_literal_def Let_def)
  then obtain c cs where l: "lit @ cp CHR ''%'' # post = c # cs"
    by (cases lit) auto
  have "percent_literal (c # cs) = Some (lit, post)"
    using percent_literal_numeric [OF assms(1), of post] l by simp
  then have "preprocessPercent (c # cs) = ascii ''('' @ lit @ ascii ''/100)'' @ preprocessPercent post"
    by simp
  with preprocessPercent_append [OF assms(2), of "lit @ cp CHR ''%'' # post"] l show ?thesis
    by simp
qed

section \<open>Preprocessing order\<close>

lemma operator_chars:
  "c \<in> set BINARY_OPERATORS \<Longrightarrow> \<not> is_digit c \<and> c \<noteq> cp CHR ''.'' \<and> c \<noteq> cp CHR ''%'' \<and> c \<noteq> cp CHR ''(''"
  by (auto simp: BINARY_OPERATORS_def is_digit_def cp_def)

lemma percent_literal_not_digit: "\<not> is_digit c \<Longrightarrow> percent_literal (c # cs) = None"
  by (simp add: percent_literal_def)

lemma percent_literal_across_operator:
  assumes a: "cp CHR ''%'' \<notin> set a" and op: "c \<in> set BINARY_OPERATORS"
  shows "percent_literal (a @ c # rest) = None"
proof (rule ccontr)
  assume "percent_literal (a @ c # rest) \<noteq> None"
  then obtain literal r where m: "percent_literal (a @ c # rest) = Some (literal, r)"
    by (cases "percent_literal (a @ c # rest)") auto
  note eq = percent_literal_Some(1) [OF m] and chars = percent_literal_Some(3) [OF m]
  from eq obtain us where
    "(a = literal @ us \<and> us @ c # rest = cp CHR ''%'' # r)
     \<or> (a @ us = literal \<and> c # rest = us @ cp CHR ''%'' # r)"
    by (auto simp: append_eq_append_conv2)
  then show False
  proof
    assume h: "a = literal @ us \<and> us @ c # rest = cp CHR ''%'' # r"
    show False
    proof (cases us)
      case Nil
      with h op show False using operator_chars by auto
    next
      case (Cons u us')
      with h a show False by auto
    qed
  next
    assume h: "a @ us = literal \<and> c # rest = us @ cp CHR ''%'' # r"
    show False
    proof (cases us)
      case Nil
      with h op show False using operator_chars by auto
    next
      case (Cons u us')
      with h have "c \<in> set literal" by auto
      with chars op show False using operator_chars by auto
    qed
  qed
qed

lemma preprocessPercent_across_operator:
  "cp CHR ''%'' \<notin> set a \<Longrightarrow> c \<in> set BINARY_OPERATORS \<Longrightarrow>
     preprocessPercent (a @ c # rest) = a @ preprocessPercent (c # rest)"
proof (induction a)
  case Nil
  show ?case by simp
next
  case (Cons x a)
  have "percent_literal ((x # a) @ c # rest) = None"
    using Cons.prems by (rule percent_literal_across_operator)
  with Cons show ?case by simp
qed

lemma preprocessPercent_first_char:
  "(case preprocessPercent line of [] \<Rightarrow> False | c # _ \<Rightarrow> c \<in> set BINARY_OPERATORS)
     = (case line of [] \<Rightarrow> False | c # _ \<Rightarrow> c \<in> set BINARY_OPERATORS)"
proof (cases line)
  case Nil
  then show ?thesis by simp
next
  case (Cons c cs)
  show ?thesis
  proof (cases "percent_literal (c # cs)")
    case None
    with Cons show ?thesis by simp
  next
    case (Some p)
    obtain literal rest where p: "p = (literal, rest)" by (cases p)
    from Some p have m: "percent_literal (c # cs) = Some (literal, rest)" by simp
    have "is_digit c"
      using percent_literal_Some(1,2,4) [OF m] by (cases literal) auto
    then have "c \<notin> set BINARY_OPERATORS"
      using operator_chars by blast
    moreover have "cp CHR ''('' \<notin> set BINARY_OPERATORS"
      using operator_chars by blast
    ultimately show ?thesis
      using Cons m by (simp add: ascii_def)
  qed
qed

text \<open>
  C3: the string handed to the engine is the one that the pipeline in the order of the
  specification gives (percent expansion, then the chaining prefix, then alias substitution),
  and so is the alias table after it. The code puts the prefix in front before it expands
  percents; the two orders agree because the formatted previous answer, a number in
  auto notation, has no percent sign, which is the hypothesis on the engine's formatter.
\<close>

theorem engine_input_is_spec_pipeline:
  assumes "previousAnswer st \<noteq> Null \<longrightarrow> cp CHR ''%'' \<notin> set (math_format E (previousAnswer st))"
  shows "engine_input E U st line = spec_pipeline E U st line"
proof (cases "previousAnswer st \<noteq> Null
    \<and> (case line of [] \<Rightarrow> False | c # _ \<Rightarrow> c \<in> set BINARY_OPERATORS)")
  case False
  then show ?thesis
    by (auto simp: engine_input_def spec_pipeline_def chain_def Let_def
        preprocessPercent_first_char)
next
  case True
  then obtain c rest where line: "line = c # rest" and op: "c \<in> set BINARY_OPERATORS"
    by (cases line) auto
  from True assms have "cp CHR ''%'' \<notin> set (math_format E (previousAnswer st))"
    by simp
  then have "preprocessPercent (math_format E (previousAnswer st) @ line)
      = math_format E (previousAnswer st) @ preprocessPercent line"
    unfolding line using op by (rule preprocessPercent_across_operator)
  with True show ?thesis
    by (simp add: engine_input_def spec_pipeline_def chain_def Let_def
        preprocessPercent_first_char)
qed

theorem engine_input_is_spec_pipeline_witness:
  "previousAnswer after_100 \<noteq> Null
   \<and> cp CHR ''%'' \<notin> set (math_format demo_engine (previousAnswer after_100))
   \<and> fst (spec_pipeline demo_engine demo_unicode after_100 (ascii ''* 80%''))
       = ascii ''100* (80/100)''
   \<and> engine_input demo_engine demo_unicode after_100 (ascii ''* 80%'')
       = spec_pipeline demo_engine demo_unicode after_100 (ascii ''* 80%'')"
proof -
  have p: "previousAnswer after_100 \<noteq> Null"
    by (simp add: after_100_def)
  have f: "cp CHR ''%'' \<notin> set (math_format demo_engine (previousAnswer after_100))"
    by (simp add: run_defs demo_defs)
  then have h: "previousAnswer after_100 \<noteq> Null
      \<longrightarrow> cp CHR ''%'' \<notin> set (math_format demo_engine (previousAnswer after_100))"
    by simp
  have s: "fst (spec_pipeline demo_engine demo_unicode after_100 (ascii ''* 80%''))
      = ascii ''100* (80/100)''"
    by (simp add: spec_pipeline_def run_defs demo_defs)
  from engine_input_is_spec_pipeline [OF h] p f s show ?thesis
    by blast
qed

section \<open>Alias allocation\<close>

lemma decimal_nonempty: "decimal n \<noteq> []"
  by (subst decimal.simps) simp

lemma decimal_inj: "decimal n = decimal m \<Longrightarrow> n = m"
proof (induction n arbitrary: m rule: decimal.induct)
  case (1 n)
  show ?case
  proof (cases "n < 10")
    case True
    note n = this
    show ?thesis
    proof (cases "m < 10")
      case True
      with n "1.prems" show ?thesis
        by (simp add: decimal.simps [of n] decimal.simps [of m])
    next
      case False
      with n "1.prems" show ?thesis
        using decimal_nonempty [of "m div 10"]
        by (simp add: decimal.simps [of n] decimal.simps [of m])
    qed
  next
    case False
    note n = this
    show ?thesis
    proof (cases "m < 10")
      case True
      with n "1.prems" show ?thesis
        using decimal_nonempty [of "n div 10"]
        by (simp add: decimal.simps [of n] decimal.simps [of m])
    next
      case False
      with n "1.prems" have "decimal (n div 10) = decimal (m div 10)" and "n mod 10 = m mod 10"
        by (simp_all add: decimal.simps [of n] decimal.simps [of m])
      with "1.IH" [OF n] have "n div 10 = m div 10" and "n mod 10 = m mod 10"
        by simp_all
      then show ?thesis
        by (metis div_mult_mod_eq)
    qed
  qed
qed

lemma table_ok_initial: "table_ok \<lparr>cnToAlias = Map.empty, counter = 0\<rparr>"
  by (simp add: table_ok_def)

lemma getAlias_known:
  assumes "table_ok m" and "cnToAlias m n = Some a"
  shows "getAlias m n = (a, m)"
proof -
  from assms have "a \<noteq> []"
    by (auto simp: table_ok_def ascii_def)
  with assms(2) show ?thesis
    by (simp add: getAlias_def Let_def)
qed

lemma getAlias_fresh:
  assumes "cnToAlias m n = None"
  shows "getAlias m n
    = (ascii ''_v'' @ decimal (counter m),
       \<lparr>cnToAlias = (cnToAlias m)(n \<mapsto> ascii ''_v'' @ decimal (counter m)),
        counter = counter m + 1\<rparr>)"
  using assms by (simp add: getAlias_def Let_def)

lemma getAlias_step:
  assumes ok: "table_ok m" and g: "getAlias m n = (a, m1)"
  shows "table_ok m1"
    and "cnToAlias m1 n = Some a"
    and "\<And>x b. cnToAlias m x = Some b \<Longrightarrow> cnToAlias m1 x = Some b"
    and "dom (cnToAlias m1) = insert n (dom (cnToAlias m))"
    and "n \<notin> dom (cnToAlias m) \<Longrightarrow> a = ascii ''_v'' @ decimal (card (dom (cnToAlias m)))"
proof -
  have "table_ok m1 \<and> cnToAlias m1 n = Some a
      \<and> (\<forall>x b. cnToAlias m x = Some b \<longrightarrow> cnToAlias m1 x = Some b)
      \<and> dom (cnToAlias m1) = insert n (dom (cnToAlias m))
      \<and> (n \<notin> dom (cnToAlias m) \<longrightarrow> a = ascii ''_v'' @ decimal (card (dom (cnToAlias m))))"
  proof (cases "cnToAlias m n")
    case (Some b)
    with getAlias_known [OF ok Some] g ok show ?thesis
      by auto
  next
    case None
    let ?a = "ascii ''_v'' @ decimal (counter m)"
    from getAlias_fresh [OF None] g have a: "a = ?a"
      and m1: "m1 = \<lparr>cnToAlias = (cnToAlias m)(n \<mapsto> ?a), counter = counter m + 1\<rparr>"
      by simp_all
    from ok have fin: "finite (dom (cnToAlias m))" and card: "card (dom (cnToAlias m)) = counter m"
      and names: "\<forall>x b. cnToAlias m x = Some b \<longrightarrow> (\<exists>r<counter m. b = ascii ''_v'' @ decimal r)"
      and inj: "inj_on (cnToAlias m) (dom (cnToAlias m))"
      by (simp_all add: table_ok_def)
    from None have nd: "n \<notin> dom (cnToAlias m)"
      by (simp add: domIff)
    have fresh: "cnToAlias m x \<noteq> Some ?a" for x
    proof
      assume "cnToAlias m x = Some ?a"
      with names obtain r where "r < counter m" and "?a = ascii ''_v'' @ decimal r"
        by blast
      then show False
        using decimal_inj [of "counter m" r] by simp
    qed
    have "inj_on ((cnToAlias m)(n \<mapsto> ?a)) (insert n (dom (cnToAlias m)))"
    proof (rule inj_onI)
      fix x y
      assume x: "x \<in> insert n (dom (cnToAlias m))" and y: "y \<in> insert n (dom (cnToAlias m))"
        and e: "((cnToAlias m)(n \<mapsto> ?a)) x = ((cnToAlias m)(n \<mapsto> ?a)) y"
      show "x = y"
      proof (cases "x = n")
        case True
        with e fresh [of y] show ?thesis
          by (auto split: if_splits)
      next
        case False
        note xn = this
        show ?thesis
        proof (cases "y = n")
          case True
          with e fresh [of x] xn show ?thesis
            by (auto split: if_splits)
        next
          case False
          with xn x y e inj show ?thesis
            by (auto dest: inj_onD)
        qed
      qed
    qed
    moreover have "\<forall>x b. ((cnToAlias m)(n \<mapsto> ?a)) x = Some b
        \<longrightarrow> (\<exists>r<counter m + 1. b = ascii ''_v'' @ decimal r)"
      using names by (auto simp: less_Suc_eq)
    ultimately have "table_ok m1"
      using fin card nd by (simp add: table_ok_def m1)
    moreover have "\<forall>x b. cnToAlias m x = Some b \<longrightarrow> cnToAlias m1 x = Some b"
      using None by (auto simp: m1)
    ultimately show ?thesis
      using a card by (simp add: m1)
  qed
  then show "table_ok m1"
    and "cnToAlias m1 n = Some a"
    and "\<And>x b. cnToAlias m x = Some b \<Longrightarrow> cnToAlias m1 x = Some b"
    and "dom (cnToAlias m1) = insert n (dom (cnToAlias m))"
    and "n \<notin> dom (cnToAlias m) \<Longrightarrow> a = ascii ''_v'' @ decimal (card (dom (cnToAlias m)))"
    by blast+
qed

lemma getAliases_run:
  assumes "table_ok m" and "getAliases m ns = (as, m')"
  shows "table_ok m' \<and> length as = length ns
    \<and> (\<forall>x b. cnToAlias m x = Some b \<longrightarrow> cnToAlias m' x = Some b)
    \<and> (\<forall>i<length ns. cnToAlias m' (ns ! i) = Some (as ! i))
    \<and> (\<forall>i<length ns. ns ! i \<notin> dom (cnToAlias m) \<union> set (take i ns) \<longrightarrow>
          as ! i = ascii ''_v'' @ decimal (card (dom (cnToAlias m) \<union> set (take i ns))))"
  using assms
proof (induction ns arbitrary: m as)
  case Nil
  then show ?case by simp
next
  case (Cons n ns)
  obtain a m1 where g: "getAlias m n = (a, m1)"
    by (cases "getAlias m n")
  obtain as1 where r: "getAliases m1 ns = (as1, m')" and as: "as = a # as1"
    using Cons.prems(2) g by (auto split: prod.splits)
  note step = getAlias_step [OF Cons.prems(1) g]
  note ih = Cons.IH [OF step(1) r]
  have keep: "\<forall>x b. cnToAlias m x = Some b \<longrightarrow> cnToAlias m' x = Some b"
    using step(3) ih by blast
  have look: "\<forall>i<length (n # ns). cnToAlias m' ((n # ns) ! i) = Some (as ! i)"
  proof (intro allI impI)
    fix i assume "i < length (n # ns)"
    then show "cnToAlias m' ((n # ns) ! i) = Some (as ! i)"
      using step(2) ih as by (cases i) auto
  qed
  have first: "\<forall>i<length (n # ns). (n # ns) ! i \<notin> dom (cnToAlias m) \<union> set (take i (n # ns)) \<longrightarrow>
      as ! i = ascii ''_v'' @ decimal (card (dom (cnToAlias m) \<union> set (take i (n # ns))))"
  proof (intro allI impI)
    fix i assume i: "i < length (n # ns)"
      and new: "(n # ns) ! i \<notin> dom (cnToAlias m) \<union> set (take i (n # ns))"
    show "as ! i = ascii ''_v'' @ decimal (card (dom (cnToAlias m) \<union> set (take i (n # ns))))"
    proof (cases i)
      case 0
      with new step(5) as show ?thesis by simp
    next
      case (Suc j)
      with i have j: "j < length ns" by simp
      from new Suc have "ns ! j \<notin> dom (cnToAlias m1) \<union> set (take j ns)"
        by (simp add: step(4))
      with ih j have "as1 ! j = ascii ''_v'' @ decimal (card (dom (cnToAlias m1) \<union> set (take j ns)))"
        by blast
      moreover have "dom (cnToAlias m1) \<union> set (take j ns)
          = dom (cnToAlias m) \<union> set (take i (n # ns))"
        by (simp add: step(4) Suc)
      ultimately show ?thesis
        by (simp add: as Suc)
    qed
  qed
  from ih keep look first as show ?case
    by simp
qed

text \<open>
  Requests made one after the other on the table that starts empty with counter 0: a request
  for an identifier not requested before returns \<^verbatim>\<open>_v\<close> followed by the number of distinct
  identifiers requested before it, and two requests return the same alias exactly when they
  are for the same identifier.
\<close>

lemma getAliases_allocation:
  assumes "getAliases \<lparr>cnToAlias = Map.empty, counter = 0\<rparr> names = (aliases, table)"
  shows "length aliases = length names
    \<and> (\<forall>i<length names. names ! i \<notin> set (take i names) \<longrightarrow>
          aliases ! i = ascii ''_v'' @ decimal (card (set (take i names))))
    \<and> (\<forall>i<length names. \<forall>j<length names.
          (aliases ! i = aliases ! j) = (names ! i = names ! j))"
proof -
  note run = getAliases_run [OF table_ok_initial assms]
  from run have ok: "table_ok table" and len: "length aliases = length names"
    and look: "\<forall>i<length names. cnToAlias table (names ! i) = Some (aliases ! i)"
    by simp_all
  from ok have inj: "inj_on (cnToAlias table) (dom (cnToAlias table))"
    by (simp add: table_ok_def)
  have "(aliases ! i = aliases ! j) = (names ! i = names ! j)"
    if i: "i < length names" and j: "j < length names" for i j
  proof
    assume "aliases ! i = aliases ! j"
    with look i j have "cnToAlias table (names ! i) = cnToAlias table (names ! j)"
      and "names ! i \<in> dom (cnToAlias table)" and "names ! j \<in> dom (cnToAlias table)"
      by auto
    with inj show "names ! i = names ! j"
      by (auto dest: inj_onD)
  next
    assume "names ! i = names ! j"
    with look i j show "aliases ! i = aliases ! j"
      by (metis option.inject)
  qed
  moreover from run have "\<forall>i<length names. names ! i \<notin> set (take i names) \<longrightarrow>
      aliases ! i = ascii ''_v'' @ decimal (card (set (take i names)))"
    by simp
  ultimately show ?thesis
    using len by blast
qed

lemma getAliases_append:
  "getAliases m (xs @ ys)
     = (fst (getAliases m xs) @ fst (getAliases (snd (getAliases m xs)) ys),
        snd (getAliases (snd (getAliases m xs)) ys))"
  by (induction xs arbitrary: m) (simp_all add: case_prod_beta)

subsection \<open>The requests of a line\<close>

lemma getAliases_snd_Cons:
  "snd (getAliases m (n # ns)) = snd (getAliases (snd (getAlias m n)) ns)"
  by (simp add: case_prod_beta)

lemma getAliases_facts:
  assumes "table_ok m"
  shows "table_ok (snd (getAliases m ns))"
    and "cnToAlias m x = Some b \<Longrightarrow> cnToAlias (snd (getAliases m ns)) x = Some b"
  using getAliases_run [OF assms, of ns "fst (getAliases m ns)" "snd (getAliases m ns)"]
  by simp_all

lemma getAliases_dom:
  "table_ok m \<Longrightarrow> dom (cnToAlias (snd (getAliases m ns))) = dom (cnToAlias m) \<union> set ns"
proof (induction ns arbitrary: m)
  case Nil
  show ?case by simp
next
  case (Cons n ns)
  have g: "getAlias m n = (fst (getAlias m n), snd (getAlias m n))" by simp
  note step = getAlias_step [OF Cons.prems g]
  from Cons.IH [OF step(1)] step(4) show ?case
    by (simp add: case_prod_beta)
qed

lemma replaceChineseVars_table:
  "snd (replaceChineseVars U s m) = snd (getAliases m (identifiers U s))"
proof (induction U s m rule: replaceChineseVars.induct)
  case (1 U m)
  show ?case by simp
next
  case (2 U c cs m)
  show ?case
  proof (cases "ident_start U c")
    case False
    with 2(2) [OF False] show ?thesis
      by (simp add: case_prod_beta)
  next
    case True
    let ?match = "c # takeWhile (ident_part U) cs"
    let ?rest = "dropWhile (ident_part U) cs"
    let ?p = "if hasUnicodeLetter ?match then getAlias m ?match else (?match, m)"
    have p: "(fst ?p, snd ?p) = ?p" by simp
    note ih = 2(1) [OF True refl refl refl p]
    have step: "snd (replaceChineseVars U (c # cs) m) = snd (replaceChineseVars U ?rest (snd ?p))"
      using True by (simp add: Let_def case_prod_beta)
    show ?thesis
    proof (cases "hasUnicodeLetter ?match")
      case True
      with ih step \<open>ident_start U c\<close> show ?thesis
        by (simp add: Let_def case_prod_beta)
    next
      case False
      with ih step \<open>ident_start U c\<close> show ?thesis
        by (simp add: Let_def)
    qed
  qed
qed

lemma alias_of_Some: "cnToAlias t n = Some a \<Longrightarrow> alias_of t n = a"
  by (simp add: alias_of_def)

lemma replaceChineseVars_output:
  assumes "table_ok m"
    and "\<And>x b. cnToAlias (snd (replaceChineseVars U s m)) x = Some b \<Longrightarrow> cnToAlias t x = Some b"
  shows "fst (replaceChineseVars U s m) = substitute U (alias_of t) s"
  using assms
proof (induction U s m rule: replaceChineseVars.induct)
  case (1 U m)
  show ?case by simp
next
  case (2 U c cs m)
  show ?case
  proof (cases "ident_start U c")
    case False
    have "snd (replaceChineseVars U (c # cs) m) = snd (replaceChineseVars U cs m)"
      using False by (simp add: case_prod_beta)
    with 2(2) [OF False "2.prems"(1)] "2.prems"(2) False show ?thesis
      by (simp add: case_prod_beta)
  next
    case True
    let ?match = "c # takeWhile (ident_part U) cs"
    let ?rest = "dropWhile (ident_part U) cs"
    let ?p = "if hasUnicodeLetter ?match then getAlias m ?match else (?match, m)"
    have p: "(fst ?p, snd ?p) = ?p" by simp
    have step: "snd (replaceChineseVars U (c # cs) m) = snd (replaceChineseVars U ?rest (snd ?p))"
      using True by (simp add: Let_def case_prod_beta)
    have out: "fst (replaceChineseVars U (c # cs) m)
        = fst ?p @ fst (replaceChineseVars U ?rest (snd ?p))"
      using True by (simp add: Let_def case_prod_beta)
    have ok1: "table_ok (snd ?p)"
    proof (cases "hasUnicodeLetter ?match")
      case True
      have "getAlias m ?match = (fst (getAlias m ?match), snd (getAlias m ?match))" by simp
      from getAlias_step(1) [OF "2.prems"(1) this] True show ?thesis by simp
    next
      case False
      with "2.prems"(1) show ?thesis by simp
    qed
    have keep: "cnToAlias t x = Some b" if "cnToAlias (snd (replaceChineseVars U ?rest (snd ?p))) x = Some b" for x b
      using that "2.prems"(2) step by simp
    note ih = 2(1) [OF True refl refl refl p ok1 keep]
    have rep: "fst ?p = (if hasUnicodeLetter ?match then alias_of t ?match else ?match)"
    proof (cases "hasUnicodeLetter ?match")
      case False
      then show ?thesis by simp
    next
      case True
      have g: "getAlias m ?match = (fst (getAlias m ?match), snd (getAlias m ?match))" by simp
      have "cnToAlias (snd ?p) ?match = Some (fst ?p)"
        using getAlias_step(2) [OF "2.prems"(1) g] True by simp
      then have "cnToAlias (snd (getAliases (snd ?p) (identifiers U ?rest))) ?match = Some (fst ?p)"
        using getAliases_facts(2) [OF ok1] by blast
      then have "cnToAlias t ?match = Some (fst ?p)"
        using keep by (simp add: replaceChineseVars_table)
      with True show ?thesis
        by (simp add: alias_of_Some)
    qed
    show ?thesis
      unfolding out rep using ih True by (simp add: Let_def)
  qed
qed

lemma engine_input_substitute:
  assumes "table_ok (mapping st)"
  shows "table_ok (snd (engine_input E U st line))"
    and "fst (engine_input E U st line)
      = substitute U (alias_of (snd (engine_input E U st line)))
          (preprocessPercent (chain E (previousAnswer st) line))"
proof -
  show "table_ok (snd (engine_input E U st line))"
    unfolding engine_input_def replaceChineseVars_table using assms by (rule getAliases_facts(1))
  show "fst (engine_input E U st line)
      = substitute U (alias_of (snd (engine_input E U st line)))
          (preprocessPercent (chain E (previousAnswer st) line))"
    unfolding engine_input_def using assms by (rule replaceChineseVars_output)
qed

subsection \<open>The requests of a pass\<close>

lemma process_line_table:
  "mapping (snd (process_line E U st raw))
     = snd (getAliases (mapping st) (line_requests E U st raw))"
proof (cases "classify (mapping st) (scope st) (trim raw) = Eligible")
  case True
  have "mapping (snd (process_line E U st raw)) = snd (engine_input E U st (trim raw))"
    unfolding process_line_eligible [OF True]
    by (simp add: run_engine_def Let_def case_prod_beta split: outcome.split option.split)
  with True show ?thesis
    by (simp add: line_requests_def engine_input_def replaceChineseVars_table)
next
  case False
  then have "process_line E U st raw = (Blank, st)"
    by (cases "classify (mapping st) (scope st) (trim raw)") (simp_all add: process_line_def)
  with False show ?thesis
    by (simp add: line_requests_def)
qed

lemma process_lines_snd: "snd (process_lines E U st rs ls) = snd (process_lines E U st [] ls)"
  using process_lines_acc [of E U st rs ls] by simp

lemma process_lines_snd_Cons:
  "snd (process_lines E U st [] (l # ls))
     = snd (process_lines E U (snd (process_line E U st l)) [] ls)"
  by (simp add: process_lines_Cons del: process_lines.simps(2))

lemma process_lines_snd_append:
  "snd (process_lines E U st [] (xs @ ys))
     = snd (process_lines E U (snd (process_lines E U st [] xs)) [] ys)"
proof (induction xs arbitrary: st)
  case Nil
  show ?case by simp
next
  case (Cons x xs)
  show ?case
    using Cons.IH [of "snd (process_line E U st x)"]
    by (simp add: process_lines_snd_Cons del: process_lines.simps(2))
qed

lemma process_lines_table:
  "mapping (snd (process_lines E U st [] ls))
     = snd (getAliases (mapping st) (pass_requests E U st ls))"
proof (induction ls arbitrary: st)
  case Nil
  show ?case by simp
next
  case (Cons l ls)
  show ?case
    using Cons.IH [of "snd (process_line E U st l)"]
    by (simp add: process_lines_snd_Cons process_line_table getAliases_append
        del: process_lines.simps(2))
qed

lemma process_lines_table_ok:
  assumes "table_ok (mapping st)"
  shows "table_ok (mapping (snd (process_lines E U st [] ls)))"
    and "cnToAlias (mapping st) x = Some b
      \<Longrightarrow> cnToAlias (mapping (snd (process_lines E U st [] ls))) x = Some b"
  unfolding process_lines_table using assms by (rule getAliases_facts)+

lemma pass_line_output:
  fixes E :: "('v, 'n::zero) engine"
  assumes i: "i < length ls"
    and el: "classify (mapping (pass_state E U (take i ls))) (scope (pass_state E U (take i ls)))
               (trim (ls ! i)) = Eligible"
  shows "fst (engine_input E U (pass_state E U (take i ls)) (trim (ls ! i)))
    = substitute U (alias_of (pass_table E U ls))
        (preprocessPercent (chain E (previousAnswer (pass_state E U (take i ls))) (trim (ls ! i))))"
proof -
  let ?st = "pass_state E U (take i ls)"
  let ?st1 = "snd (process_line E U ?st (ls ! i))"
  have ok0: "table_ok (mapping (initial :: 'v pass))"
    by (simp add: initial_def table_ok_initial)
  have ok: "table_ok (mapping ?st)"
    unfolding pass_state_def using ok0 by (rule process_lines_table_ok(1))
  have m1: "mapping ?st1 = snd (engine_input E U ?st (trim (ls ! i)))"
    unfolding process_line_eligible [OF el]
    by (simp add: run_engine_def Let_def case_prod_beta split: outcome.split option.split)
  have ok1: "table_ok (mapping ?st1)"
    unfolding m1 using ok by (rule engine_input_substitute(1))
  have "ls = take i ls @ ls ! i # drop (Suc i) ls"
    using i by (simp add: id_take_nth_drop [symmetric])
  then have "pass_state E U ls = snd (process_lines E U ?st [] (ls ! i # drop (Suc i) ls))"
    unfolding pass_state_def by (metis process_lines_snd_append)
  then have fin: "pass_table E U ls = mapping (snd (process_lines E U ?st1 [] (drop (Suc i) ls)))"
    by (simp add: pass_table_def process_lines_snd_Cons del: process_lines.simps(2))
  have keep: "cnToAlias (pass_table E U ls) x = Some b"
    if "cnToAlias (snd (replaceChineseVars U
          (preprocessPercent (chain E (previousAnswer ?st) (trim (ls ! i)))) (mapping ?st))) x = Some b"
    for x b
    unfolding fin using ok1 that [folded engine_input_def, folded m1]
    by (rule process_lines_table_ok(2))
  show ?thesis
    unfolding engine_input_def using ok keep by (rule replaceChineseVars_output)
qed

text \<open>
  C6: within one pass, alias allocation is stable and injective. The alias table of a pass
  over the lines \<open>ls\<close> is the table that the requests of the pass, taken in order over all
  its lines, build from the empty table with counter 0, and its counter is the number of
  distinct identifiers requested. Every line that is evaluated hands the engine its text
  with each non-ASCII identifier replaced by the alias that this one table has for it, so a
  later request for an identifier returns the name the first one got. The identifier whose
  first request comes when \<open>k - 1\<close> distinct identifiers have been requested has the alias
  \<^verbatim>\<open>_v\<close> followed by the decimal digits of \<open>k - 1\<close>, and two requested identifiers have the
  same alias only if they are the same identifier.
\<close>

theorem pass_alias_allocation:
  fixes E :: "('v, 'n::zero) engine"
  shows "(let names = pass_requests E U initial ls; table = pass_table E U ls
     in table = snd (getAliases \<lparr>cnToAlias = Map.empty, counter = 0\<rparr> names)
        \<and> counter table = card (set names)
        \<and> (\<forall>i<length ls.
              classify (mapping (pass_state E U (take i ls))) (scope (pass_state E U (take i ls)))
                (trim (ls ! i)) = Eligible \<longrightarrow>
              fst (engine_input E U (pass_state E U (take i ls)) (trim (ls ! i)))
                = substitute U (alias_of table)
                    (preprocessPercent
                       (chain E (previousAnswer (pass_state E U (take i ls))) (trim (ls ! i)))))
        \<and> (\<forall>k<length names. names ! k \<notin> set (take k names) \<longrightarrow>
              cnToAlias table (names ! k) = Some (ascii ''_v'' @ decimal (card (set (take k names)))))
        \<and> (\<forall>k<length names. \<forall>j<length names.
              (alias_of table (names ! k) = alias_of table (names ! j)) = (names ! k = names ! j)))"
proof -
  define names where "names = pass_requests E U initial ls"
  define table where "table = pass_table E U ls"
  define aliases where "aliases = fst (getAliases \<lparr>cnToAlias = Map.empty, counter = 0\<rparr> names)"
  have t: "table = snd (getAliases \<lparr>cnToAlias = Map.empty, counter = 0\<rparr> names)"
    unfolding table_def names_def pass_table_def pass_state_def process_lines_table
    by (simp add: initial_def)
  then have run: "getAliases \<lparr>cnToAlias = Map.empty, counter = 0\<rparr> names = (aliases, table)"
    by (simp add: aliases_def)
  note facts = getAliases_run [OF table_ok_initial run]
  from facts have ok: "table_ok table"
    and look: "\<forall>k<length names. cnToAlias table (names ! k) = Some (aliases ! k)"
    and first: "\<forall>k<length names. names ! k \<notin> set (take k names) \<longrightarrow>
        aliases ! k = ascii ''_v'' @ decimal (card (set (take k names)))"
    by simp_all
  have "dom (cnToAlias table) = set names"
    using getAliases_dom [OF table_ok_initial, of names] t by simp
  with ok have c: "counter table = card (set names)"
    by (simp add: table_ok_def)
  have l: "\<forall>i<length ls.
      classify (mapping (pass_state E U (take i ls))) (scope (pass_state E U (take i ls)))
        (trim (ls ! i)) = Eligible \<longrightarrow>
      fst (engine_input E U (pass_state E U (take i ls)) (trim (ls ! i)))
        = substitute U (alias_of table)
            (preprocessPercent
               (chain E (previousAnswer (pass_state E U (take i ls))) (trim (ls ! i))))"
    unfolding table_def using pass_line_output by blast
  have f: "\<forall>k<length names. names ! k \<notin> set (take k names) \<longrightarrow>
      cnToAlias table (names ! k) = Some (ascii ''_v'' @ decimal (card (set (take k names))))"
    using look first by simp
  have a: "alias_of table (names ! k) = aliases ! k" if "k < length names" for k
    using look that by (simp add: alias_of_Some)
  have "\<forall>k<length names. \<forall>j<length names. (aliases ! k = aliases ! j) = (names ! k = names ! j)"
    using getAliases_allocation [OF run] by blast
  then have e: "\<forall>k<length names. \<forall>j<length names.
      (alias_of table (names ! k) = alias_of table (names ! j)) = (names ! k = names ! j)"
    using a by simp
  from t c l f e show ?thesis
    unfolding Let_def names_def [symmetric] table_def [symmetric] by blast
qed

theorem pass_alias_allocation_witness:
  "pass_requests demo_engine demo_unicode initial
      [[0x623F, 0x79DF] @ ascii '' = 3500'', [0x6C34, 0x7535] @ ascii '' = 200'',
       [0x623F, 0x79DF] @ ascii '' + '' @ [0x6C34, 0x7535]]
     = [[0x623F, 0x79DF], [0x6C34, 0x7535], [0x623F, 0x79DF], [0x6C34, 0x7535]]
   \<and> fst (engine_input demo_engine demo_unicode
            (pass_state demo_engine demo_unicode
               [[0x623F, 0x79DF] @ ascii '' = 3500'', [0x6C34, 0x7535] @ ascii '' = 200''])
            (trim ([0x623F, 0x79DF] @ ascii '' + '' @ [0x6C34, 0x7535])))
       = ascii ''_v0 + _v1''
   \<and> cnToAlias (pass_table demo_engine demo_unicode
         [[0x623F, 0x79DF] @ ascii '' = 3500'', [0x6C34, 0x7535] @ ascii '' = 200'',
          [0x623F, 0x79DF] @ ascii '' + '' @ [0x6C34, 0x7535]]) [0x6C34, 0x7535]
       = Some (ascii ''_v1'')
   \<and> counter (pass_table demo_engine demo_unicode
         [[0x623F, 0x79DF] @ ascii '' = 3500'', [0x6C34, 0x7535] @ ascii '' = 200'',
          [0x623F, 0x79DF] @ ascii '' + '' @ [0x6C34, 0x7535]]) = 2"
proof -
  let ?a = "[0x623F, 0x79DF :: nat]" and ?b = "[0x6C34, 0x7535 :: nat]"
  define l1 where "l1 = ?a @ ascii '' = 3500''"
  define l2 where "l2 = ?b @ ascii '' = 200''"
  define l3 where "l3 = ?a @ ascii '' + '' @ ?b"
  note l_defs = l1_def l2_def l3_def
  let ?names = "[?a, ?b, ?a, ?b]"
  let ?table = "pass_table demo_engine demo_unicode [l1, l2, l3]"
  let ?st2 = "pass_state demo_engine demo_unicode [l1, l2]"
  define m1 where "m1 = \<lparr>cnToAlias = [?a \<mapsto> ascii ''_v0''], counter = 1\<rparr>"
  define m2 where
    "m2 = \<lparr>cnToAlias = [?a \<mapsto> ascii ''_v0'', ?b \<mapsto> ascii ''_v1''], counter = 2\<rparr>"
  define st1 :: "demo_value pass" where "st1 = initial\<lparr>mapping := m1\<rparr>"
  define st2 :: "demo_value pass" where "st2 = initial\<lparr>mapping := m2\<rparr>"
  have p1: "process_line demo_engine demo_unicode initial l1 = (Error, st1)"
    by (simp add: l_defs run_defs demo_defs st1_def m1_def)
  have p2: "process_line demo_engine demo_unicode st1 l2 = (Error, st2)"
    by (simp add: l_defs run_defs demo_defs st1_def st2_def m1_def m2_def)
  have p3: "process_line demo_engine demo_unicode st2 l3 = (Error, st2)"
    by (simp add: l_defs run_defs demo_defs st2_def m2_def)
  have s2: "?st2 = st2"
    by (simp add: pass_state_def p1 p2)
  have r1: "line_requests demo_engine demo_unicode initial l1 = [?a]"
    by (simp add: l_defs line_requests_def run_defs demo_defs)
  have r2: "line_requests demo_engine demo_unicode st1 l2 = [?b]"
    by (simp add: l_defs line_requests_def run_defs demo_defs st1_def m1_def)
  have r3: "line_requests demo_engine demo_unicode st2 l3 = [?a, ?b]"
    by (simp add: l_defs line_requests_def run_defs demo_defs st2_def m2_def)
  have names: "pass_requests demo_engine demo_unicode initial [l1, l2, l3] = ?names"
    by (simp add: p1 p2 p3 r1 r2 r3)
  have el: "classify (mapping st2) (scope st2) (trim l3) = Eligible"
    by (simp add: l_defs run_defs st2_def m2_def demo_defs)
  note t = pass_alias_allocation [of demo_engine demo_unicode "[l1, l2, l3]", unfolded Let_def names]
  from t have tab: "?table = snd (getAliases \<lparr>cnToAlias = Map.empty, counter = 0\<rparr> ?names)"
    by blast
  have tv: "?table = m2"
    unfolding tab by (simp add: getAlias_def Let_def decimal.simps ascii_def cp_def m2_def)
  from t have "counter ?table = card (set ?names)"
    by blast
  moreover have "set ?names = {?a, ?b}"
    by auto
  ultimately have c: "counter ?table = 2"
    by simp
  from t have "\<forall>i<length [l1, l2, l3].
      classify (mapping (pass_state demo_engine demo_unicode (take i [l1, l2, l3])))
        (scope (pass_state demo_engine demo_unicode (take i [l1, l2, l3])))
        (trim ([l1, l2, l3] ! i)) = Eligible \<longrightarrow>
      fst (engine_input demo_engine demo_unicode
             (pass_state demo_engine demo_unicode (take i [l1, l2, l3])) (trim ([l1, l2, l3] ! i)))
        = substitute demo_unicode (alias_of ?table)
            (preprocessPercent
               (chain demo_engine
                  (previousAnswer (pass_state demo_engine demo_unicode (take i [l1, l2, l3])))
                  (trim ([l1, l2, l3] ! i))))"
    by blast
  from this [rule_format, of 2] el
  have "fst (engine_input demo_engine demo_unicode st2 (trim l3))
      = substitute demo_unicode (alias_of ?table)
          (preprocessPercent (chain demo_engine (previousAnswer st2) (trim l3)))"
    by (simp add: s2)
  also have "\<dots> = ascii ''_v0 + _v1''"
    unfolding tv by (simp add: l_defs run_defs demo_defs alias_of_def st2_def m2_def)
  finally have "fst (engine_input demo_engine demo_unicode st2 (trim l3)) = ascii ''_v0 + _v1''" .
  then have o: "fst (engine_input demo_engine demo_unicode ?st2 (trim l3)) = ascii ''_v0 + _v1''"
    by (simp add: s2)
  from t have "\<forall>k<length ?names. ?names ! k \<notin> set (take k ?names) \<longrightarrow>
      cnToAlias ?table (?names ! k) = Some (ascii ''_v'' @ decimal (card (set (take k ?names))))"
    by blast
  from this [rule_format, of 1] have a: "cnToAlias ?table ?b = Some (ascii ''_v1'')"
    by (simp add: decimal.simps ascii_def cp_def)
  from names o a c show ?thesis
    unfolding l_defs by blast
qed

section \<open>Percent signs and the engine\<close>

subsection \<open>Identifiers and digits\<close>

lemma ident_start_part: "ident_start U c \<Longrightarrow> ident_part U c"
  by (auto simp: ident_start_def ident_part_def)

lemma digit_before_percent_suffix: "digit_before_percent b \<Longrightarrow> digit_before_percent (a @ b)"
  by (induction a) (auto simp: digit_before_percent_Cons)

lemma literal_before_percent_digit:
  "literal_before_percent U s \<Longrightarrow> digit_before_percent s"
proof (induction U s rule: literal_before_percent.induct)
  case (1 U)
  then show ?case by simp
next
  case (2 U c cs)
  show ?case
  proof (cases "ident_start U c")
    case True
    with "2.prems" have "literal_before_percent U (dropWhile (ident_part U) cs)" by simp
    from 2(1) [OF True this] have "digit_before_percent (dropWhile (ident_part U) cs)" .
    then have "digit_before_percent ((c # takeWhile (ident_part U) cs) @ dropWhile (ident_part U) cs)"
      by (rule digit_before_percent_suffix)
    then show ?thesis by simp
  next
    case False
    with "2.prems" 2(2) [OF False] show ?thesis
      by (cases cs) (auto simp: digit_before_percent_Cons)
  qed
qed

lemma substitute_copies_first:
  "\<not> ident_start U c \<Longrightarrow> substitute U f (c # cs) = c # substitute U f cs"
  by simp

lemma substitute_starts_percent:
  assumes shaped: "\<And>n. ident_shaped U n \<Longrightarrow> ident_shaped U (f n)"
    and pc: "\<not> ident_start U (cp CHR ''%'')"
  shows "(case substitute U f s of [] \<Rightarrow> False | d # _ \<Rightarrow> d = cp CHR ''%'')
       = (case s of [] \<Rightarrow> False | d # _ \<Rightarrow> d = cp CHR ''%'')"
proof (cases s)
  case Nil
  then show ?thesis by simp
next
  case (Cons c cs)
  show ?thesis
  proof (cases "ident_start U c")
    case False
    with Cons show ?thesis by simp
  next
    case True
    let ?match = "c # takeWhile (ident_part U) cs"
    have m: "ident_shaped U ?match"
      using True by (auto simp: ident_shaped_def list_all_iff dest: set_takeWhileD)
    let ?rep = "if hasUnicodeLetter ?match then f ?match else ?match"
    have "ident_shaped U ?rep"
      using m shaped by simp
    then obtain r rs where rep: "?rep = r # rs" and r: "ident_start U r"
      by (cases ?rep) (auto simp: ident_shaped_def)
    have "substitute U f (c # cs) = ?rep @ substitute U f (dropWhile (ident_part U) cs)"
      using True by (simp add: Let_def)
    then have "substitute U f (c # cs) = r # rs @ substitute U f (dropWhile (ident_part U) cs)"
      using rep by simp
    moreover have "r \<noteq> cp CHR ''%''" and "c \<noteq> cp CHR ''%''"
      using r True pc by auto
    ultimately show ?thesis
      using Cons by simp
  qed
qed

lemma substitute_after_stop:
  "rest = [] \<or> \<not> ident_part U (hd rest) \<Longrightarrow>
     dropWhile (ident_part U) (substitute U f rest) = substitute U f rest"
proof (cases rest)
  case Nil
  then show ?thesis by simp
next
  case (Cons x xs)
  assume "rest = [] \<or> \<not> ident_part U (hd rest)"
  with Cons have "\<not> ident_part U x" by simp
  moreover from this have "\<not> ident_start U x"
    using ident_start_part by blast
  ultimately show ?thesis
    using Cons by simp
qed

lemma substitute_after_match:
  "dropWhile (ident_part U) (substitute U f (dropWhile (ident_part U) cs))
     = substitute U f (dropWhile (ident_part U) cs)"
  using dropWhile_stop [of "ident_part U" cs] by (rule substitute_after_stop)

lemma literal_before_percent_substitute:
  assumes shaped: "\<And>n. ident_shaped U n \<Longrightarrow> ident_shaped U (f n)"
    and pc: "\<not> ident_start U (cp CHR ''%'')"
  shows "literal_before_percent U (substitute U f s) = literal_before_percent U s"
  using assms
proof (induction U f s rule: substitute.induct)
  case (1 U f)
  show ?case by simp
next
  case (2 U f c cs)
  show ?case
  proof (cases "ident_start U c")
    case False
    have "(case substitute U f cs of [] \<Rightarrow> False | d # _ \<Rightarrow> d = cp CHR ''%'')
        = (case cs of [] \<Rightarrow> False | d # _ \<Rightarrow> d = cp CHR ''%'')"
      using "2.prems" by (rule substitute_starts_percent)
    with False 2(2) [OF False "2.prems"] show ?thesis
      by simp
  next
    case True
    let ?match = "c # takeWhile (ident_part U) cs"
    let ?rest = "dropWhile (ident_part U) cs"
    let ?rep = "if hasUnicodeLetter ?match then f ?match else ?match"
    have "ident_shaped U ?match"
      using True by (auto simp: ident_shaped_def list_all_iff dest: set_takeWhileD)
    then have "ident_shaped U ?rep"
      using "2.prems"(1) by simp
    then obtain r rs where rep: "?rep = r # rs" and r: "ident_start U r"
      and rs: "\<forall>x\<in>set rs. ident_part U x"
      by (cases ?rep) (auto simp: ident_shaped_def list_all_iff)
    have out: "substitute U f (c # cs) = r # rs @ substitute U f ?rest"
      using True rep by (simp add: Let_def)
    have "dropWhile (ident_part U) (rs @ substitute U f ?rest) = substitute U f ?rest"
      using rs by (simp add: dropWhile_append2 substitute_after_match)
    then have "literal_before_percent U (substitute U f (c # cs))
        = literal_before_percent U (substitute U f ?rest)"
      unfolding out using r by simp
    also have "\<dots> = literal_before_percent U ?rest"
      using 2(1) [OF True refl refl "2.prems"] .
    also have "\<dots> = literal_before_percent U (c # cs)"
      using True by simp
    finally show ?thesis .
  qed
qed

lemma decimal_digits: "\<forall>c\<in>set (decimal n). is_digit c"
proof (induction n rule: decimal.induct)
  case (1 n)
  show ?case
  proof (cases "n < 10")
    case True
    then show ?thesis
      by (simp add: decimal.simps [of n] is_digit_def cp_def)
  next
    case False
    have "n mod 10 < 10" by simp
    then have "is_digit (cp CHR ''0'' + n mod 10)"
      by (simp add: is_digit_def cp_def)
    with False "1.IH" show ?thesis
      by (simp add: decimal.simps [of n])
  qed
qed

lemma is_digit_cases: "is_digit c \<Longrightarrow> c \<in> set (ascii ''0123456789'')"
proof -
  assume "is_digit c"
  then have "48 \<le> c \<and> c \<le> 57" by (simp add: is_digit_def cp_def)
  then have "c = 48 \<or> c = 49 \<or> c = 50 \<or> c = 51 \<or> c = 52 \<or> c = 53 \<or> c = 54 \<or> c = 55
      \<or> c = 56 \<or> c = 57"
    by arith
  then show ?thesis
    by (auto simp: ascii_def cp_def)
qed

lemma alias_shaped:
  assumes "alias_chars_ok U"
  shows "ident_shaped U (ascii ''_v'' @ decimal r)"
proof -
  from assms have v: "is_letter U (cp CHR ''v'')"
    and num: "\<forall>c\<in>set (ascii ''0123456789''). is_number U c"
    by (simp_all add: alias_chars_ok_def list_all_iff)
  have "\<forall>c\<in>set (decimal r). ident_part U c"
    using decimal_digits [of r] is_digit_cases num by (auto simp: ident_part_def)
  with v show ?thesis
    by (simp add: ident_shaped_def ascii_def ident_start_def ident_part_def list_all_iff)
qed

lemma alias_of_shaped:
  assumes "alias_chars_ok U" and "table_ok t" and "ident_shaped U n"
  shows "ident_shaped U (alias_of t n)"
proof (cases "cnToAlias t n")
  case None
  with assms(3) show ?thesis by (simp add: alias_of_def)
next
  case (Some a)
  with assms(2) obtain r where "a = ascii ''_v'' @ decimal r"
    by (auto simp: table_ok_def)
  with Some alias_shaped [OF assms(1)] show ?thesis
    by (simp add: alias_of_def)
qed

lemma engine_input_no_literal_percent:
  assumes "alias_chars_ok U" and "table_ok (mapping st)"
  shows "\<not> literal_before_percent U (fst (engine_input E U st line))"
proof -
  let ?t = "snd (engine_input E U st line)"
  let ?x = "preprocessPercent (chain E (previousAnswer st) line)"
  note sub = engine_input_substitute [OF assms(2), of E U line]
  have pc: "\<not> ident_start U (cp CHR ''%'')"
    using assms(1) by (simp add: alias_chars_ok_def ident_start_def cp_def)
  have "literal_before_percent U (substitute U (alias_of ?t) ?x) = literal_before_percent U ?x"
    using alias_of_shaped [OF assms(1) sub(1)] pc by (rule literal_before_percent_substitute)
  moreover have "\<not> literal_before_percent U ?x"
    using literal_before_percent_digit preprocessPercent_no_digit_percent by blast
  ultimately show ?thesis
    using sub(2) by simp
qed

lemma pass_state_table_ok:
  fixes E :: "('v, 'n::zero) engine"
  shows "table_ok (mapping (pass_state E U ls))"
proof -
  have "table_ok (mapping (initial :: 'v pass))"
    by (simp add: initial_def table_ok_initial)
  then show ?thesis
    unfolding pass_state_def by (rule process_lines_table_ok(1))
qed

text \<open>
  C10, as the code has it: for every input line, the output of percent expansion has no
  ASCII digit immediately followed by a percent sign. Every numeric literal immediately
  followed by a percent sign is rewritten: where the text before it ends neither with a
  digit nor with a digit and a point, the literal and its sign become \<^verbatim>\<open>(literal/100)\<close>
  between the expansions of what is before and what is after; \<^verbatim>\<open>10%3\<close> becomes
  \<^verbatim>\<open>(10/100)3\<close>. In the string handed to the engine, at any point of a pass and for any
  line, no digit outside an identifier is immediately followed by a percent sign (the last
  digit of an alias can be: \<^verbatim>\<open>_v0%3\<close>); and when the line with its chaining prefix has only
  ASCII characters, no digit at all is.
\<close>

theorem percent_expansion_leaves_no_digit_percent:
  fixes E :: "('v, 'n::zero) engine"
  shows "\<not> digit_before_percent (preprocessPercent line)
   \<and> (numeric_literal lit \<and> literal_cut pre \<longrightarrow>
        preprocessPercent (pre @ lit @ cp CHR ''%'' # post)
          = preprocessPercent pre @ ascii ''('' @ lit @ ascii ''/100)'' @ preprocessPercent post)
   \<and> preprocessPercent (ascii ''10%3'') = ascii ''(10/100)3''
   \<and> (alias_chars_ok U \<longrightarrow>
        \<not> literal_before_percent U (fst (engine_input E U (pass_state E U ls) line)))
   \<and> (\<not> hasUnicodeLetter (chain E (previousAnswer st) line)
        \<longrightarrow> \<not> digit_before_percent (fst (engine_input E U st line)))"
proof (intro conjI impI)
  show "\<not> digit_before_percent (preprocessPercent line)"
    by (rule preprocessPercent_no_digit_percent)
  show "preprocessPercent (pre @ lit @ cp CHR ''%'' # post)
      = preprocessPercent pre @ ascii ''('' @ lit @ ascii ''/100)'' @ preprocessPercent post"
    if "numeric_literal lit \<and> literal_cut pre"
    using that preprocessPercent_literal by blast
  show "preprocessPercent (ascii ''10%3'') = ascii ''(10/100)3''"
    by (simp add: percent_literal_def ascii_def cp_def is_digit_def Let_def)
  show "\<not> literal_before_percent U (fst (engine_input E U (pass_state E U ls) line))"
    if "alias_chars_ok U"
    using that pass_state_table_ok by (rule engine_input_no_literal_percent)
  assume "\<not> hasUnicodeLetter (chain E (previousAnswer st) line)"
  then have "\<not> hasUnicodeLetter (preprocessPercent (chain E (previousAnswer st) line))"
    by (rule preprocessPercent_ascii)
  then have "fst (engine_input E U st line) = preprocessPercent (chain E (previousAnswer st) line)"
    by (simp add: engine_input_def replaceChineseVars_ascii)
  then show "\<not> digit_before_percent (fst (engine_input E U st line))"
    by (simp add: preprocessPercent_no_digit_percent)
qed

theorem percent_expansion_leaves_no_digit_percent_witness:
  "numeric_literal (ascii ''2.5'') \<and> literal_cut (ascii ''a+'')
   \<and> preprocessPercent (ascii ''a+'' @ ascii ''2.5'' @ cp CHR ''%'' # ascii ''b'')
       = ascii ''a+(2.5/100)b''
   \<and> alias_chars_ok demo_unicode
   \<and> fst (engine_input demo_engine demo_unicode (pass_state demo_engine demo_unicode [])
            ([0x623F, 0x79DF] @ ascii ''%3'')) = ascii ''_v0%3''
   \<and> \<not> literal_before_percent demo_unicode
         (fst (engine_input demo_engine demo_unicode (pass_state demo_engine demo_unicode [])
                 ([0x623F, 0x79DF] @ ascii ''%3'')))
   \<and> \<not> hasUnicodeLetter (chain demo_engine (previousAnswer initial) (ascii ''10%3''))
   \<and> fst (engine_input demo_engine demo_unicode initial (ascii ''10%3'')) = ascii ''(10/100)3''
   \<and> \<not> digit_before_percent (fst (engine_input demo_engine demo_unicode initial (ascii ''10%3'')))"
proof -
  have n: "numeric_literal (ascii ''2.5'')"
    by (simp add: numeric_literal_def ascii_def cp_def is_digit_def)
  have c: "literal_cut (ascii ''a+'')"
    by (simp add: literal_cut_def ascii_def cp_def is_digit_def)
  have e: "ascii ''('' @ ascii ''2.5'' @ ascii ''/100)'' = ascii ''(2.5/100)''"
    by (simp add: ascii_def)
  have pa: "preprocessPercent (ascii ''a+'') = ascii ''a+''"
    and pb: "preprocessPercent (ascii ''b'') = ascii ''b''"
    by (simp_all add: percent_literal_def ascii_def cp_def is_digit_def)
  have u: "alias_chars_ok demo_unicode"
    by (simp add: alias_chars_ok_def demo_unicode_def ascii_def cp_def is_digit_def)
  have s: "pass_state demo_engine demo_unicode [] = initial"
    by (simp add: pass_state_def)
  have v1: "fst (engine_input demo_engine demo_unicode (initial :: demo_value pass)
      ([0x623F, 0x79DF] @ ascii ''%3'')) = ascii ''_v0%3''"
    by (simp add: run_defs demo_defs)
  have a: "\<not> hasUnicodeLetter (chain demo_engine (previousAnswer initial) (ascii ''10%3''))"
    by (simp add: run_defs demo_defs)
  have v2: "fst (engine_input demo_engine demo_unicode (initial :: demo_value pass) (ascii ''10%3''))
      = ascii ''(10/100)3''"
    by (simp add: run_defs demo_defs)
  note t1 = percent_expansion_leaves_no_digit_percent
    [where lit = "ascii ''2.5''" and pre = "ascii ''a+''" and post = "ascii ''b''"
       and E = demo_engine and U = demo_unicode and ls = "[]"
       and line = "[0x623F, 0x79DF] @ ascii ''%3''" and st = initial]
  note t2 = percent_expansion_leaves_no_digit_percent
    [where lit = "ascii ''2.5''" and pre = "ascii ''a+''" and post = "ascii ''b''"
       and E = demo_engine and U = demo_unicode and ls = "[]"
       and line = "ascii ''10%3''" and st = initial]
  from t1 n c have "preprocessPercent (ascii ''a+'' @ ascii ''2.5'' @ cp CHR ''%'' # ascii ''b'')
      = preprocessPercent (ascii ''a+'') @ ascii ''('' @ ascii ''2.5'' @ ascii ''/100)''
          @ preprocessPercent (ascii ''b'')"
    by blast
  then have r: "preprocessPercent (ascii ''a+'' @ ascii ''2.5'' @ cp CHR ''%'' # ascii ''b'')
      = ascii ''a+(2.5/100)b''"
    unfolding pa pb by (simp add: ascii_def)
  from t1 u have l: "\<not> literal_before_percent demo_unicode
      (fst (engine_input demo_engine demo_unicode (pass_state demo_engine demo_unicode [])
              ([0x623F, 0x79DF] @ ascii ''%3'')))"
    by blast
  from t2 a have d: "\<not> digit_before_percent
      (fst (engine_input demo_engine demo_unicode initial (ascii ''10%3'')))"
    by blast
  from n c r u v1 l a v2 d show ?thesis
    unfolding s by blast
qed

text \<open>
  A percent sign that a space separates from the literal is not rewritten: \<^verbatim>\<open>10 % 3\<close>
  comes out of percent expansion as it went in and is handed to the engine so, where the
  sign is the modulo operator with the literal 10 as its left operand.
\<close>

theorem percent_after_space_counterexample:
  "preprocessPercent (ascii ''10 % 3'') = ascii ''10 % 3''
   \<and> fst (engine_input demo_engine demo_unicode initial (ascii ''10 % 3'')) = ascii ''10 % 3''"
  by (simp add: run_defs demo_defs)

end
